theory Spec2Isabelle
  imports Main "HOL-Library.Sublist"
begin

section \<open>Messaging gateway client (OfficialWhatsAppManager)\<close>

text \<open>
  Identifiers (instance, campaign, message and contact ids) are the strings the store
  and the provider hand out. A JavaScript value used as a condition counts as true when
  it is neither missing nor the empty string.
\<close>

type_synonym ident = string

definition truthy :: "string option \<Rightarrow> bool" where
  "truthy v = (case v of None \<Rightarrow> False | Some s \<Rightarrow> s \<noteq> [])"

text \<open>What a \<open>throw\<close> carries: an \<open>Error\<close> object with its message, or any other value.\<close>

datatype thrown = Error string | NonError

record official_session =
  phoneNumberId :: string
  accessToken :: string
  businessAccountId :: string

text \<open>The columns of an \<open>instances\<close> row that the gateway and the handlers read.\<close>

record instance_row =
  userId :: ident
  waPhoneNumberId :: "string option"
  waAccessToken :: "string option"
  waBusinessAccountId :: "string option"
  waNumber :: "string option"

type_synonym session_map = "ident \<rightharpoonup> official_session"

text \<open>The return type the method declares; the body only ever builds two of the five.\<close>

datatype wa_status = disconnected | connecting | connected | qr | not_found

definition getStatus :: "session_map \<Rightarrow> ident \<Rightarrow> wa_status" where
  "getStatus sessions instanceId =
     (if instanceId \<in> dom sessions then connected else disconnected)"

definition not_configured :: "ident \<Rightarrow> string" where
  "not_configured instanceId =
     ''Instance '' @ instanceId @
     '' is not configured efficiently. Missing Phone Number ID or Access Token.''"

text \<open>
  \<open>getSession\<close>: a cached session is returned as it is; otherwise the credentials are
  read from the instance row and cached, with no call to the provider. The result is the
  session and the updated cache, or the thrown error (the cache is then unchanged).
\<close>

definition getSession ::
  "session_map \<Rightarrow> (ident \<rightharpoonup> instance_row) \<Rightarrow> ident \<Rightarrow> thrown + (official_session \<times> session_map)" where
  "getSession sessions instances instanceId =
     (case sessions instanceId of
        Some s \<Rightarrow> Inr (s, sessions)
      | None \<Rightarrow>
          (case instances instanceId of
             None \<Rightarrow> Inl (Error (not_configured instanceId))
           | Some inst \<Rightarrow>
               if \<not> truthy (waPhoneNumberId inst) \<or> \<not> truthy (waAccessToken inst)
               then Inl (Error (not_configured instanceId))
               else
                 let session = \<lparr> phoneNumberId = the (waPhoneNumberId inst),
                                 accessToken = the (waAccessToken inst),
                                 businessAccountId =
                                   (if truthy (waBusinessAccountId inst)
                                    then the (waBusinessAccountId inst) else '''') \<rparr>
                 in Inr (session, sessions(instanceId \<mapsto> session))))"

text \<open>\<open>disconnect\<close> drops the cached session (its store update is not modelled here).\<close>

definition disconnect :: "session_map \<Rightarrow> ident \<Rightarrow> session_map" where
  "disconnect sessions instanceId = sessions(instanceId := None)"

text \<open>
  What \<open>fetch\<close> and \<open>response.json()\<close> give back to \<open>apiRequest\<close>: a reply with its
  \<open>ok\<close> flag, the \<open>error.message\<close> of its body when there is one and its status text, or
  an exception (network failure, a body that is not JSON).
\<close>

datatype provider_reply =
    Reply bool "string option" string
  | FetchThrows string

definition apiRequest_result :: "provider_reply \<Rightarrow> thrown + unit" where
  "apiRequest_result r =
     (case r of
        FetchThrows msg \<Rightarrow> Inl (Error msg)
      | Reply ok errmsg statusText \<Rightarrow>
          if \<not> ok
          then Inl (Error (if truthy errmsg then the errmsg
                           else ''API Request Failed: '' @ statusText))
          else Inr ())"

text \<open>
  \<open>apiRequest\<close>, and with it \<open>sendText\<close> and \<open>sendMedia\<close> (which call \<open>getSession\<close>
  and then \<open>apiRequest\<close>, whose own \<open>getSession\<close> then hits the cache): the outcome, the
  updated cache and whether a request reached the provider.
\<close>

definition apiRequest ::
  "session_map \<Rightarrow> (ident \<rightharpoonup> instance_row) \<Rightarrow> ident \<Rightarrow> provider_reply
     \<Rightarrow> (thrown + unit) \<times> session_map \<times> bool" where
  "apiRequest sessions instances instanceId r =
     (case getSession sessions instances instanceId of
        Inl e \<Rightarrow> (Inl e, sessions, False)
      | Inr (s, sessions') \<Rightarrow> (apiRequest_result r, sessions', True))"

section \<open>Webhook relay (sendWebhook, sendWebhookWithRetry)\<close>















section \<open>Properties of the gateway client\<close>

lemma getSession_caches:
  "getSession sessions instances i = Inr (s, sessions') \<Longrightarrow> sessions' i = Some s"
  by (auto simp: getSession_def Let_def split: option.splits if_splits)

lemma getSession_cached:
  "sessions i = Some s \<Longrightarrow> getSession sessions instances i = Inr (s, sessions)"
  by (simp add: getSession_def)

text \<open>
  Claim C10. \<open>getStatus\<close> answers \<open>connected\<close> exactly when a session for the instance
  id is in the in-memory session map and \<open>disconnected\<close> otherwise; it never answers
  \<open>connecting\<close>, \<open>qr\<close> or \<open>not_found\<close>. The answer reflects cached credentials only:
  whenever \<open>getSession\<close> succeeds (it reads the store, never the provider) the instance
  counts as connected, and a request the provider rejects leaves a cached instance
  connected.
\<close>

theorem getStatus_reflects_session_cache:
  "(getStatus sessions i = connected \<longleftrightarrow> i \<in> dom sessions)
   \<and> (getStatus sessions i = disconnected \<longleftrightarrow> i \<notin> dom sessions)
   \<and> getStatus sessions i \<noteq> connecting
   \<and> getStatus sessions i \<noteq> qr
   \<and> getStatus sessions i \<noteq> not_found
   \<and> (getSession sessions instances i = Inr (s, sessions') \<longrightarrow> getStatus sessions' i = connected)
   \<and> (i \<in> dom sessions \<longrightarrow>
        getStatus (fst (snd (apiRequest sessions instances i r))) i = connected)"
proof -
  have a: "getSession sessions instances i = Inr (s, sessions') \<longrightarrow> getStatus sessions' i = connected"
    by (auto simp: getStatus_def dest: getSession_caches)
  have b: "i \<in> dom sessions \<longrightarrow>
        getStatus (fst (snd (apiRequest sessions instances i r))) i = connected"
    by (auto simp: getStatus_def apiRequest_def getSession_cached)
  show ?thesis using a b by (simp add: getStatus_def)
qed

definition demo_instance :: instance_row where
  "demo_instance = \<lparr> userId = ''u1'', waPhoneNumberId = Some ''555'',
     waAccessToken = Some ''tok'', waBusinessAccountId = None, waNumber = None \<rparr>"

definition demo_session :: official_session where
  "demo_session = \<lparr> phoneNumberId = ''555'', accessToken = ''tok'', businessAccountId = [] \<rparr>"

theorem getStatus_reflects_session_cache_witness:
  "getSession Map.empty [''i1'' \<mapsto> demo_instance] ''i1''
     = Inr (demo_session, [''i1'' \<mapsto> demo_session])
   \<and> getStatus Map.empty ''i1'' = disconnected
   \<and> getStatus [''i1'' \<mapsto> demo_session] ''i1'' = connected
   \<and> ''i1'' \<in> dom [''i1'' \<mapsto> demo_session]
   \<and> getStatus (fst (snd (apiRequest [''i1'' \<mapsto> demo_session] [''i1'' \<mapsto> demo_instance] ''i1''
         (Reply False (Some ''(#131030) Recipient not in allowed list'') ''Bad Request'')))) ''i1''
       = connected"
proof -
  have g: "getSession Map.empty [''i1'' \<mapsto> demo_instance] ''i1''
     = Inr (demo_session, [''i1'' \<mapsto> demo_session])"
    by (simp add: getSession_def truthy_def demo_instance_def demo_session_def Let_def)
  have d: "''i1'' \<in> dom [''i1'' \<mapsto> demo_session]" by simp
  from getStatus_reflects_session_cache
         [of Map.empty "''i1''" "[''i1'' \<mapsto> demo_instance]" demo_session "[''i1'' \<mapsto> demo_session]"]
       getStatus_reflects_session_cache
         [of "[''i1'' \<mapsto> demo_session]" "''i1''" "[''i1'' \<mapsto> demo_instance]" demo_session
             "[''i1'' \<mapsto> demo_session]"
             "Reply False (Some ''(#131030) Recipient not in allowed list'') ''Bad Request''"]
       g d
  show ?thesis by simp
qed

section \<open>Properties of the webhook relay\<close>























section \<open>The store: campaigns and messages\<close>

text \<open>
  Campaign and message ids are generated by the store, one fresh id per row (a uuid in
  the source); the model draws them from a counter. Timestamps are milliseconds.
  Counters are the store's integers; their upper bound is out of reach of a campaign's
  message count and is not modelled.
\<close>

datatype campaign_status = CPENDING | RUNNING | PAUSED | COMPLETED | CANCELLED

datatype message_status = PENDING | SENT | DELIVERED | READ | FAILED

datatype direction = INBOUND | OUTBOUND

record campaign =
  c_instanceId :: ident
  status :: campaign_status
  delay :: nat
  totalMessages :: nat
  sentMessages :: nat
  failedMessages :: nat
  startedAt :: "nat option"
  completedAt :: "nat option"

record message =
  m_id :: nat
  m_instanceId :: ident
  m_campaignId :: "nat option"
  contactId :: "nat option"
  waMessageId :: "string option"
  m_from :: string
  m_to :: string
  m_direction :: direction
  body :: "string option"
  mediaUrl :: "string option"
  mediaType :: "string option"
  m_status :: message_status
  errorMsg :: "string option"
  sentAt :: "nat option"
  deliveredAt :: "nat option"
  readAt :: "nat option"
  createdAt :: nat

text \<open>
  The program counter of one run of \<open>processCampaign\<close>: the store operation or the
  call it is suspended on (an \<open>await\<close>), with the local variables it holds. Each step of
  the run is one operation of the store or of the provider, or one synchronous stretch
  of code that reads the in-memory state.
\<close>

datatype pc =
    Load                               \<comment> \<open>\<open>campaign.findUnique\<close>\<close>
  | Check "campaign option"            \<comment> \<open>the three checks at the top of the iteration\<close>
  | WrPaused                           \<comment> \<open>\<open>campaign.update\<close> to PAUSED\<close>
  | Find campaign                      \<comment> \<open>\<open>message.findFirst\<close>\<close>
  | WrCompleted                        \<comment> \<open>\<open>campaign.update\<close> to COMPLETED\<close>
  | Send campaign message              \<comment> \<open>\<open>sendMedia\<close> or \<open>sendText\<close>\<close>
  | MsgSent campaign message           \<comment> \<open>\<open>message.update\<close> to SENT\<close>
  | IncSent campaign message           \<comment> \<open>\<open>campaign.update\<close>, sentMessages + 1\<close>
  | MsgFailed campaign message thrown  \<comment> \<open>in \<open>catch\<close>: \<open>message.update\<close> to FAILED\<close>
  | IncFailed campaign                 \<comment> \<open>in \<open>catch\<close>: \<open>campaign.update\<close>, failedMessages + 1\<close>
  | Sleep campaign                     \<comment> \<open>\<open>setTimeout\<close> for the campaign's delay\<close>
  | Finally "thrown option"            \<comment> \<open>\<open>runningProcessors.delete\<close>; the error, if one escaped\<close>
  | Done "thrown option"               \<comment> \<open>the run is over\<close>

datatype action = pause | resume | cancel

datatype http_error = HTTP nat string

text \<open>A request to a control endpoint, suspended on a store operation like a run of the loop.\<close>

datatype req_pc =
    StartRead
  | StartCheck "campaign option"
  | StartWrite
  | StartInvoke
  | CtlRead action
  | CtlWrite action campaign_status
  | CtlInvoke
  | Replied "http_error + unit"

record request =
  r_user :: ident
  r_campaign :: nat
  r_pc :: req_pc

text \<open>
  The state the campaign code works on: the store, the gateway's session cache, the
  module's \<open>runningProcessors\<close> set, the runs of \<open>processCampaign\<close> and the requests in
  flight. \<open>sent_log\<close> is a history variable: the ids of the messages for which a request
  went out to the provider, in order.
\<close>

record world =
  campaigns :: "nat \<rightharpoonup> campaign"
  messages :: "message list"
  instances :: "ident \<rightharpoonup> instance_row"
  next_id :: nat
  sessions :: session_map
  runningProcessors :: "nat set"
  loops :: "(nat \<times> pc) list"
  requests :: "request list"
  sent_log :: "nat list"

subsection \<open>Store operations\<close>

definition record_not_found :: thrown where
  "record_not_found = Error ''Record to update not found.''"

text \<open>\<open>campaign.update({where: {id}})\<close>: \<open>None\<close> when the store has no such row (it throws).\<close>

definition update_campaign :: "nat \<Rightarrow> (campaign \<Rightarrow> campaign) \<Rightarrow> world \<Rightarrow> world option" where
  "update_campaign cid f w =
     (case campaigns w cid of
        None \<Rightarrow> None
      | Some c \<Rightarrow> Some (w\<lparr>campaigns := (campaigns w)(cid \<mapsto> f c)\<rparr>))"

definition upd_msg :: "nat \<Rightarrow> (message \<Rightarrow> message) \<Rightarrow> message list \<Rightarrow> message list" where
  "upd_msg mid f ms = map (\<lambda>m. if m_id m = mid then f m else m) ms"

text \<open>\<open>message.update({where: {id}})\<close>, likewise.\<close>

definition update_message :: "nat \<Rightarrow> (message \<Rightarrow> message) \<Rightarrow> world \<Rightarrow> world option" where
  "update_message mid f w =
     (if mid \<in> m_id ` set (messages w)
      then Some (w\<lparr>messages := upd_msg mid f (messages w)\<rparr>)
      else None)"

definition is_pending_of :: "nat \<Rightarrow> message \<Rightarrow> bool" where
  "is_pending_of cid m = (m_campaignId m = Some cid \<and> m_status m = PENDING)"

text \<open>
  \<open>message.findFirst({where: {campaignId, status: 'PENDING'}, orderBy: {createdAt: 'asc'}})\<close>:
  the rows that match, sorted by creation time, and the first of them. The query names
  no second sort key, so among the rows that share the earliest creation time the store
  may return any one: \<open>tie\<close> is the store's choice among them.
\<close>

definition findFirst_pending :: "nat \<Rightarrow> nat \<Rightarrow> message list \<Rightarrow> message option" where
  "findFirst_pending tie cid ms =
     (case sort_key createdAt (filter (is_pending_of cid) ms) of
        [] \<Rightarrow> None
      | m # rest \<Rightarrow>
          (let firsts = m # takeWhile (\<lambda>x. createdAt x = createdAt m) rest
           in Some (firsts ! (tie mod length firsts))))"

subsection \<open>processCampaign\<close>

text \<open>
  The synchronous head of \<open>processCampaign\<close>: the re-entry guard. With the id already
  in \<open>runningProcessors\<close> the call returns at once; otherwise the id is added and a run
  starts, suspended on its first \<open>findUnique\<close>. No \<open>await\<close> separates the test from the
  insertion.
\<close>

definition processCampaign :: "nat \<Rightarrow> world \<Rightarrow> world" where
  "processCampaign campaignId w =
     (if campaignId \<in> runningProcessors w then w
      else w\<lparr>runningProcessors := insert campaignId (runningProcessors w),
             loops := loops w @ [(campaignId, Load)]\<rparr>)"

definition error_message :: "thrown \<Rightarrow> string" where
  "error_message e = (case e of Error msg \<Rightarrow> msg | NonError \<Rightarrow> ''Unknown error'')"

text \<open>
  One step of a run for \<open>campaignId\<close> at program counter \<open>p\<close>; \<open>now\<close> is the clock,
  \<open>reply\<close> the provider's answer and \<open>tie\<close> the store's choice among equally old
  rows, read by the steps that need them. A store operation
  that throws inside \<open>try\<close> lands in \<open>catch\<close>; one that throws outside it, or inside
  \<open>catch\<close>, leaves the loop through \<open>finally\<close>.
\<close>

fun loop_step ::
  "nat \<Rightarrow> provider_reply \<Rightarrow> nat \<Rightarrow> nat \<Rightarrow> pc \<Rightarrow> world \<Rightarrow> pc \<times> world" where
  "loop_step now reply tie campaignId Load w = (Check (campaigns w campaignId), w)"
| "loop_step now reply tie campaignId (Check None) w = (Finally None, w)"
| "loop_step now reply tie campaignId (Check (Some c)) w =
     (if status c \<noteq> RUNNING then (Finally None, w)
      else if getStatus (sessions w) (c_instanceId c) \<noteq> connected then (WrPaused, w)
      else (Find c, w))"
| "loop_step now reply tie campaignId WrPaused w =
     (case update_campaign campaignId (\<lambda>c. c\<lparr>status := PAUSED\<rparr>) w of
        None \<Rightarrow> (Finally (Some record_not_found), w)
      | Some w' \<Rightarrow> (Finally None, w'))"
| "loop_step now reply tie campaignId (Find c) w =
     (case findFirst_pending tie campaignId (messages w) of
        None \<Rightarrow> (WrCompleted, w)
      | Some m \<Rightarrow> (Send c m, w))"
| "loop_step now reply tie campaignId WrCompleted w =
     (case update_campaign campaignId (\<lambda>c. c\<lparr>status := COMPLETED, completedAt := Some now\<rparr>) w of
        None \<Rightarrow> (Finally (Some record_not_found), w)
      | Some w' \<Rightarrow> (Finally None, w'))"
| "loop_step now reply tie campaignId (Send c m) w =
     (case apiRequest (sessions w) (instances w) (c_instanceId c) reply of
        (result, sessions', requested) \<Rightarrow>
          let w' = w\<lparr>sessions := sessions',
                     sent_log := (if requested then sent_log w @ [m_id m] else sent_log w)\<rparr>
          in (case result of
                Inr _ \<Rightarrow> (MsgSent c m, w')
              | Inl e \<Rightarrow> (MsgFailed c m e, w')))"
| "loop_step now reply tie campaignId (MsgSent c m) w =
     (case update_message (m_id m) (\<lambda>x. x\<lparr>m_status := SENT, sentAt := Some now\<rparr>) w of
        None \<Rightarrow> (MsgFailed c m record_not_found, w)
      | Some w' \<Rightarrow> (IncSent c m, w'))"
| "loop_step now reply tie campaignId (IncSent c m) w =
     (case update_campaign campaignId (\<lambda>x. x\<lparr>sentMessages := sentMessages x + 1\<rparr>) w of
        None \<Rightarrow> (MsgFailed c m record_not_found, w)
      | Some w' \<Rightarrow> (Sleep c, w'))"
| "loop_step now reply tie campaignId (MsgFailed c m e) w =
     (case update_message (m_id m)
             (\<lambda>x. x\<lparr>m_status := FAILED, errorMsg := Some (error_message e)\<rparr>) w of
        None \<Rightarrow> (Finally (Some record_not_found), w)
      | Some w' \<Rightarrow> (IncFailed c, w'))"
| "loop_step now reply tie campaignId (IncFailed c) w =
     (case update_campaign campaignId (\<lambda>x. x\<lparr>failedMessages := failedMessages x + 1\<rparr>) w of
        None \<Rightarrow> (Finally (Some record_not_found), w)
      | Some w' \<Rightarrow> (Sleep c, w'))"
| "loop_step now reply tie campaignId (Sleep c) w = (Load, w)"
| "loop_step now reply tie campaignId (Finally r) w =
     (Done r, w\<lparr>runningProcessors := runningProcessors w - {campaignId}\<rparr>)"
| "loop_step now reply tie campaignId (Done r) w = (Done r, w)"

subsection \<open>The control endpoints\<close>

text \<open>
  \<open>campaign.findFirst({where: {id, instance: {userId}}})\<close>: the campaign, when it exists
  and its instance belongs to the user.
\<close>

definition find_owned_campaign :: "world \<Rightarrow> ident \<Rightarrow> nat \<Rightarrow> campaign option" where
  "find_owned_campaign w user cid =
     (case campaigns w cid of
        None \<Rightarrow> None
      | Some c \<Rightarrow>
          (case instances w (c_instanceId c) of
             None \<Rightarrow> None
           | Some inst \<Rightarrow> if userId inst = user then Some c else None))"

text \<open>
  The \<open>switch\<close> of \<open>POST /:id/control\<close>: the error it throws, or the status it is about
  to write.
\<close>

definition control_check :: "campaign option \<Rightarrow> action \<Rightarrow> http_error + campaign_status" where
  "control_check found a =
     (case found of
        None \<Rightarrow> Inl (HTTP 404 ''Campaign not found'')
      | Some c \<Rightarrow>
          (case a of
             pause \<Rightarrow>
               if status c \<noteq> RUNNING then Inl (HTTP 400 ''Campaign is not running'')
               else Inr PAUSED
           | resume \<Rightarrow>
               if status c \<noteq> PAUSED then Inl (HTTP 400 ''Campaign is not paused'')
               else Inr RUNNING
           | cancel \<Rightarrow>
               if status c = COMPLETED \<or> status c = CANCELLED
               then Inl (HTTP 400 ''Campaign already finished'')
               else Inr CANCELLED))"

text \<open>The checks of \<open>POST /:id/start\<close>.\<close>

definition start_check :: "session_map \<Rightarrow> campaign option \<Rightarrow> http_error + unit" where
  "start_check sess found =
     (case found of
        None \<Rightarrow> Inl (HTTP 404 ''Campaign not found'')
      | Some c \<Rightarrow>
          if status c \<noteq> CPENDING then Inl (HTTP 400 ''Campaign already started or finished'')
          else if getStatus sess (c_instanceId c) \<noteq> connected
          then Inl (HTTP 400 ''Instance is not connected'')
          else Inr ())"

definition internal_error :: http_error where
  "internal_error = HTTP 500 ''Internal Server Error''"

text \<open>One step of a request: a store operation, or the code that follows it.\<close>

fun req_step :: "nat \<Rightarrow> ident \<Rightarrow> nat \<Rightarrow> req_pc \<Rightarrow> world \<Rightarrow> req_pc \<times> world" where
  "req_step now user cid StartRead w = (StartCheck (find_owned_campaign w user cid), w)"
| "req_step now user cid (StartCheck found) w =
     (case start_check (sessions w) found of
        Inl e \<Rightarrow> (Replied (Inl e), w)
      | Inr _ \<Rightarrow> (StartWrite, w))"
| "req_step now user cid StartWrite w =
     (case update_campaign cid (\<lambda>c. c\<lparr>status := RUNNING, startedAt := Some now\<rparr>) w of
        None \<Rightarrow> (Replied (Inl internal_error), w)
      | Some w' \<Rightarrow> (StartInvoke, w'))"
| "req_step now user cid StartInvoke w = (Replied (Inr ()), processCampaign cid w)"
| "req_step now user cid (CtlRead a) w =
     (case control_check (find_owned_campaign w user cid) a of
        Inl e \<Rightarrow> (Replied (Inl e), w)
      | Inr st \<Rightarrow> (CtlWrite a st, w))"
| "req_step now user cid (CtlWrite a st) w =
     (case update_campaign cid (\<lambda>c. c\<lparr>status := st\<rparr>) w of
        None \<Rightarrow> (Replied (Inl internal_error), w)
      | Some w' \<Rightarrow> (if a = resume then CtlInvoke else Replied (Inr ()), w'))"
| "req_step now user cid CtlInvoke w = (Replied (Inr ()), processCampaign cid w)"
| "req_step now user cid (Replied r) w = (Replied r, w)"

text \<open>
  The handlers \<open>await\<close> between their read and their write, and between the write and
  the call of \<open>processCampaign\<close>; other requests and runs can take steps there (the
  \<open>ReqStep\<close> events below). \<open>req_run\<close> is a request handled with nothing else running in
  between: its steps one after the other, up to the reply.
\<close>

fun req_run :: "nat \<Rightarrow> nat \<Rightarrow> ident \<Rightarrow> nat \<Rightarrow> req_pc \<Rightarrow> world \<Rightarrow> (http_error + unit) \<times> world" where
  "req_run 0 now user cid p w = (Inl internal_error, w)"
| "req_run (Suc fuel) now user cid p w =
     (case p of
        Replied r \<Rightarrow> (r, w)
      | _ \<Rightarrow> (case req_step now user cid p w of (p', w') \<Rightarrow> req_run fuel now user cid p' w'))"

definition control_handler :: "nat \<Rightarrow> ident \<Rightarrow> nat \<Rightarrow> action \<Rightarrow> world \<Rightarrow> (http_error + unit) \<times> world" where
  "control_handler now user cid a w = req_run 4 now user cid (CtlRead a) w"

definition start_handler :: "nat \<Rightarrow> ident \<Rightarrow> nat \<Rightarrow> world \<Rightarrow> (http_error + unit) \<times> world" where
  "start_handler now user cid w = req_run 5 now user cid StartRead w"

text \<open>Several steps of one run in a row, nothing else running in between.\<close>

fun loop_steps ::
  "nat \<Rightarrow> nat \<Rightarrow> provider_reply \<Rightarrow> nat \<Rightarrow> nat \<Rightarrow> pc \<times> world \<Rightarrow> pc \<times> world" where
  "loop_steps 0 now reply tie cid pw = pw"
| "loop_steps (Suc k) now reply tie cid pw =
     loop_steps k now reply tie cid (loop_step now reply tie cid (fst pw) (snd pw))"

subsection \<open>Creating a campaign\<close>

datatype content_type = text_content | media_content

record content =
  ct_type :: content_type
  ct_text :: "string option"
  ct_mediaUrl :: "string option"
  ct_caption :: "string option"

text \<open>\<open>a || b\<close> on optional strings.\<close>

definition or_else :: "string option \<Rightarrow> string option \<Rightarrow> string option" where
  "or_else a b = (if truthy a then a else b)"

text \<open>The message row the \<open>create\<close> of both endpoints writes for one recipient.\<close>

definition new_row ::
  "ident \<Rightarrow> instance_row \<Rightarrow> nat \<Rightarrow> nat \<Rightarrow> nat \<times> string \<times> content \<Rightarrow> message" where
  "new_row instanceId inst cid now item =
     (case item of (mid, to, ct) \<Rightarrow>
        \<lparr> m_id = mid, m_instanceId = instanceId, m_campaignId = Some cid, contactId = None,
          waMessageId = None,
          m_from = the (or_else (waNumber inst) (Some ''unknown'')),
          m_to = to, m_direction = OUTBOUND,
          body = or_else (or_else (ct_text ct) (ct_caption ct)) (Some []),
          mediaUrl = ct_mediaUrl ct,
          mediaType = Some (if ct_type ct = media_content then ''image'' else ''text''),
          m_status = PENDING, errorMsg = None, sentAt = None, deliveredAt = None,
          readAt = None, createdAt = now \<rparr>)"

datatype create_result = Created nat | InstanceNotFound

text \<open>
  \<open>POST /advanced\<close>, after its schema has accepted the body: one campaign row with
  \<open>totalMessages\<close> the number of messages, and one PENDING message row for each.
  The columns the handler leaves to the store take its defaults.
\<close>

definition create_advanced ::
  "ident \<Rightarrow> ident \<Rightarrow> nat \<Rightarrow> (string \<times> content) list \<Rightarrow> nat \<Rightarrow> world \<Rightarrow> create_result \<times> world" where
  "create_advanced user instanceId dl items now w =
     (case instances w instanceId of
        None \<Rightarrow> (InstanceNotFound, w)
      | Some inst \<Rightarrow>
          if userId inst \<noteq> user then (InstanceNotFound, w)
          else
            let cid = next_id w;
                rows = map (new_row instanceId inst cid now)
                           (zip [Suc cid ..< Suc cid + length items] items)
            in (Created cid,
                w\<lparr>campaigns := (campaigns w)(cid \<mapsto>
                      \<lparr> c_instanceId = instanceId, status = CPENDING, delay = dl,
                        totalMessages = length items, sentMessages = 0, failedMessages = 0,
                        startedAt = None, completedAt = None \<rparr>),
                  messages := messages w @ rows,
                  next_id := Suc cid + length items\<rparr>))"

text \<open>\<open>POST /simple\<close>: the same message for every recipient.\<close>

definition create_simple ::
  "ident \<Rightarrow> ident \<Rightarrow> nat \<Rightarrow> content \<Rightarrow> string list \<Rightarrow> nat \<Rightarrow> world \<Rightarrow> create_result \<times> world" where
  "create_simple user instanceId dl ct recipients now w =
     create_advanced user instanceId dl (map (\<lambda>to. (to, ct)) recipients) now w"

subsection \<open>The system: runs and requests interleaved\<close>

text \<open>
  What can happen next: a run of \<open>processCampaign\<close> or a request takes its next step, a
  request arrives, a campaign is created, or the gateway caches or drops a session. A
  step of a run comes with the clock, the provider's answer and the store's choice among
  equally old rows.
\<close>

datatype event =
    LoopStep nat nat provider_reply nat
  | ReqStep nat nat
  | StartRequest ident nat
  | ControlRequest ident nat action
  | CreateCampaign ident ident nat "(string \<times> content) list" nat
  | CacheSession ident
  | Disconnect ident

definition apply_event :: "event \<Rightarrow> world \<Rightarrow> world" where
  "apply_event e w =
     (case e of
        LoopStep i now reply tie \<Rightarrow>
          if i < length (loops w) then
            (case loops w ! i of (cid, p) \<Rightarrow>
               (case loop_step now reply tie cid p w of
                  (p', w') \<Rightarrow> w'\<lparr>loops := (loops w')[i := (cid, p')]\<rparr>))
          else w
      | ReqStep j now \<Rightarrow>
          if j < length (requests w) then
            (let r = requests w ! j in
               (case req_step now (r_user r) (r_campaign r) (r_pc r) w of
                  (p', w') \<Rightarrow> w'\<lparr>requests := (requests w')[j := r\<lparr>r_pc := p'\<rparr>]\<rparr>))
          else w
      | StartRequest user cid \<Rightarrow>
          w\<lparr>requests := requests w @ [\<lparr>r_user = user, r_campaign = cid, r_pc = StartRead\<rparr>]\<rparr>
      | ControlRequest user cid a \<Rightarrow>
          w\<lparr>requests := requests w @ [\<lparr>r_user = user, r_campaign = cid, r_pc = CtlRead a\<rparr>]\<rparr>
      | CreateCampaign user instanceId dl items now \<Rightarrow>
          snd (create_advanced user instanceId dl items now w)
      | CacheSession instanceId \<Rightarrow>
          (case getSession (sessions w) (instances w) instanceId of
             Inl e \<Rightarrow> w
           | Inr (s, sessions') \<Rightarrow> w\<lparr>sessions := sessions'\<rparr>)
      | Disconnect instanceId \<Rightarrow> w\<lparr>sessions := disconnect (sessions w) instanceId\<rparr>)"

definition run :: "event list \<Rightarrow> world \<Rightarrow> world" where
  "run evs w = foldl (\<lambda>w e. apply_event e w) w evs"

text \<open>The start: an empty store but for the instances, nothing cached, nothing running.\<close>

definition init :: "(ident \<rightharpoonup> instance_row) \<Rightarrow> world" where
  "init insts =
     \<lparr> campaigns = Map.empty, messages = [], instances = insts, next_id = 0,
       sessions = Map.empty, runningProcessors = {}, loops = [], requests = [],
       sent_log = [] \<rparr>"

section \<open>Properties of the control endpoints\<close>

text \<open>The transition table in the specification's words.\<close>

definition valid_from :: "action \<Rightarrow> campaign_status \<Rightarrow> bool" where
  "valid_from a st =
     (case a of
        pause \<Rightarrow> st = RUNNING
      | resume \<Rightarrow> st = PAUSED
      | cancel \<Rightarrow> st = CPENDING \<or> st = RUNNING \<or> st = PAUSED)"

definition target :: "action \<Rightarrow> campaign_status" where
  "target a = (case a of pause \<Rightarrow> PAUSED | resume \<Rightarrow> RUNNING | cancel \<Rightarrow> CANCELLED)"

definition is_client_error :: "http_error \<Rightarrow> bool" where
  "is_client_error e = (case e of HTTP code msg \<Rightarrow> 400 \<le> code \<and> code < 500)"

text \<open>The store after \<open>campaign.update\<close> has written the row \<open>c\<close>.\<close>

definition write_campaign :: "nat \<Rightarrow> campaign \<Rightarrow> world \<Rightarrow> world" where
  "write_campaign cid c w = w\<lparr>campaigns := (campaigns w)(cid \<mapsto> c)\<rparr>"

lemma find_owned_campaign_Some:
  "find_owned_campaign w user cid = Some c \<Longrightarrow> campaigns w cid = Some c"
  by (auto simp: find_owned_campaign_def split: option.splits if_splits)

lemma control_check_valid:
  "control_check (Some c) a = (if valid_from a (status c) then Inr (target a)
       else Inl (HTTP 400 (case a of pause \<Rightarrow> ''Campaign is not running''
              | resume \<Rightarrow> ''Campaign is not paused'' | cancel \<Rightarrow> ''Campaign already finished'')))"
  by (cases a; cases "status c") (simp_all add: control_check_def valid_from_def target_def)

lemma control_handler_accepts:
  assumes "find_owned_campaign w user cid = Some c" and "valid_from a (status c)"
  shows "control_handler now user cid a w =
           (Inr (), (if a = resume then processCampaign cid else id)
                      (write_campaign cid (c\<lparr>status := target a\<rparr>) w))"
proof -
  have c: "campaigns w cid = Some c" using assms(1) by (rule find_owned_campaign_Some)
  show ?thesis
    using assms c
    by (simp add: control_handler_def numeral_eq_Suc control_check_valid update_campaign_def
                  write_campaign_def)
qed

lemma control_handler_rejects:
  assumes "\<not> (\<exists>c. find_owned_campaign w user cid = Some c \<and> valid_from a (status c))"
  shows "\<exists>e. control_handler now user cid a w = (Inl e, w) \<and> is_client_error e"
proof (cases "find_owned_campaign w user cid")
  case None
  then show ?thesis
    by (simp add: control_handler_def numeral_eq_Suc control_check_def is_client_error_def)
next
  case (Some c)
  with assms have "\<not> valid_from a (status c)" by simp
  with Some show ?thesis
    by (simp add: control_handler_def numeral_eq_Suc control_check_valid is_client_error_def)
qed

lemma start_handler_accepts:
  assumes "find_owned_campaign w user cid = Some c" and "status c = CPENDING"
      and "getStatus (sessions w) (c_instanceId c) = connected"
  shows "start_handler now user cid w =
           (Inr (), processCampaign cid
                      (write_campaign cid (c\<lparr>status := RUNNING, startedAt := Some now\<rparr>) w))"
proof -
  have c: "campaigns w cid = Some c" using assms(1) by (rule find_owned_campaign_Some)
  show ?thesis
    using assms c
    by (simp add: start_handler_def numeral_eq_Suc start_check_def update_campaign_def
                  write_campaign_def)
qed

lemma start_handler_rejects:
  assumes "\<not> (\<exists>c. find_owned_campaign w user cid = Some c \<and> status c = CPENDING
                  \<and> getStatus (sessions w) (c_instanceId c) = connected)"
  shows "\<exists>e. start_handler now user cid w = (Inl e, w) \<and> is_client_error e"
proof (cases "find_owned_campaign w user cid")
  case None
  then show ?thesis
    by (simp add: start_handler_def numeral_eq_Suc start_check_def is_client_error_def)
next
  case (Some c)
  with assms have "status c \<noteq> CPENDING \<or> getStatus (sessions w) (c_instanceId c) \<noteq> connected"
    by simp
  with Some show ?thesis
    by (auto simp: start_handler_def numeral_eq_Suc start_check_def is_client_error_def)
qed

subsection \<open>A small world for the examples\<close>

definition demo_content :: content where
  "demo_content = \<lparr> ct_type = text_content, ct_text = Some ''hello'', ct_mediaUrl = None,
     ct_caption = None \<rparr>"

definition demo_campaign :: "campaign_status \<Rightarrow> campaign" where
  "demo_campaign st = \<lparr> c_instanceId = ''i1'', status = st, delay = 1000, totalMessages = 2,
     sentMessages = 0, failedMessages = 0, startedAt = None, completedAt = None \<rparr>"

definition demo_message :: "nat \<Rightarrow> nat \<Rightarrow> message_status \<Rightarrow> message" where
  "demo_message mid t st = (new_row ''i1'' demo_instance 0 t (mid, ''5511'', demo_content))\<lparr>m_status := st\<rparr>"

definition demo_world :: "campaign_status \<Rightarrow> message list \<Rightarrow> world" where
  "demo_world st ms =
     \<lparr> campaigns = [0 \<mapsto> demo_campaign st], messages = ms,
       instances = [''i1'' \<mapsto> demo_instance], next_id = 3,
       sessions = [''i1'' \<mapsto> demo_session], runningProcessors = {0},
       loops = [], requests = [], sent_log = [] \<rparr>"

definition demo_init :: world where
  "demo_init = init [''i1'' \<mapsto> demo_instance]"

definition demo_messages :: "message list" where
  "demo_messages = [demo_message 1 7 SENT, demo_message 2 9 PENDING, demo_message 3 8 PENDING]"

lemma demo_owned: "find_owned_campaign (demo_world st ms) ''u1'' 0 = Some (demo_campaign st)"
  by (simp add: find_owned_campaign_def demo_world_def demo_campaign_def demo_instance_def)

lemma demo_connected: "getStatus (sessions (demo_world st ms)) (c_instanceId (demo_campaign st')) = connected"
  by (simp add: getStatus_def demo_world_def demo_campaign_def)

lemma demo_write:
  "write_campaign 0 ((demo_campaign st)\<lparr>status := st'\<rparr>) (demo_world st ms) = demo_world st' ms"
  by (simp add: write_campaign_def demo_world_def demo_campaign_def)

section \<open>Properties of one iteration of the dispatch loop\<close>

lemma sort_key_head:
  assumes "sort_key f xs = m # rest"
  shows "m \<in> set xs \<and> (\<forall>x \<in> set xs. f m \<le> f x)"
proof -
  have s: "set (m # rest) = set xs" using assms set_sort[of f xs] by simp
  have "sorted (map f (m # rest))" using assms sorted_sort_key[of f xs] by simp
  then have "\<forall>y \<in> set rest. f m \<le> f y" by simp
  then have "\<forall>x \<in> set (m # rest). f m \<le> f x" by simp
  with s show ?thesis by auto
qed

lemma sort_key_Nil: "sort_key f xs = [] \<longleftrightarrow> xs = []"
  using length_sort[of f xs] by (metis length_0_conv)

lemma findFirst_pending_None:
  "findFirst_pending tie cid ms = None \<longleftrightarrow> (\<forall>m \<in> set ms. \<not> is_pending_of cid m)"
proof -
  have "findFirst_pending tie cid ms = None
          \<longleftrightarrow> sort_key createdAt (filter (is_pending_of cid) ms) = []"
    by (simp add: findFirst_pending_def Let_def split: list.splits)
  also have "\<dots> \<longleftrightarrow> filter (is_pending_of cid) ms = []" by (rule sort_key_Nil)
  also have "\<dots> \<longleftrightarrow> (\<forall>m \<in> set ms. \<not> is_pending_of cid m)" by (simp add: filter_empty_conv)
  finally show ?thesis .
qed

lemma tie_member:
  "x \<in> set (h # takeWhile (\<lambda>y. f y = f h) rest) \<Longrightarrow> x \<in> set (h # rest) \<and> f x = f h"
  by (auto dest: set_takeWhileD)

lemma findFirst_pending_Some:
  assumes "findFirst_pending tie cid ms = Some m"
  shows "m \<in> set ms \<and> is_pending_of cid m
         \<and> (\<forall>x \<in> set ms. is_pending_of cid x \<longrightarrow> createdAt m \<le> createdAt x)"
proof -
  from assms obtain h rest where
    s: "sort_key createdAt (filter (is_pending_of cid) ms) = h # rest" and
    m: "m = (h # takeWhile (\<lambda>x. createdAt x = createdAt h) rest)
              ! (tie mod length (h # takeWhile (\<lambda>x. createdAt x = createdAt h) rest))"
    by (auto simp: findFirst_pending_def Let_def split: list.splits)
  let ?fs = "h # takeWhile (\<lambda>x. createdAt x = createdAt h) rest"
  have "tie mod length ?fs < length ?fs" by simp
  then have "?fs ! (tie mod length ?fs) \<in> set ?fs" by (rule nth_mem)
  with m have "m \<in> set ?fs" by simp
  from tie_member[OF this] have a: "m \<in> set (h # rest)" "createdAt m = createdAt h"
    by simp_all
  from sort_key_head[OF s] have b: "\<forall>x \<in> set (filter (is_pending_of cid) ms).
                                     createdAt h \<le> createdAt x" by simp
  from a(1) have "m \<in> set (sort_key createdAt (filter (is_pending_of cid) ms))"
    unfolding s .
  then have d: "m \<in> set ms" "is_pending_of cid m" by simp_all
  from b a(2) have "\<forall>x \<in> set ms. is_pending_of cid x \<longrightarrow> createdAt m \<le> createdAt x" by simp
  with d show ?thesis by simp
qed

lemma takeWhile_sorted_eq:
  fixes f :: "'a \<Rightarrow> nat"
  shows "sorted (map f (h # rest)) \<Longrightarrow> x \<in> set rest \<Longrightarrow> f x = f h
           \<Longrightarrow> x \<in> set (takeWhile (\<lambda>y. f y = f h) rest)"
proof (induction rest)
  case Nil
  then show ?case by simp
next
  case (Cons a rest)
  from Cons.prems(1) have ha: "f h \<le> f a" and sr: "sorted (map f (h # rest))"
    and ar: "\<forall>y \<in> set rest. f a \<le> f y"
    by auto
  show ?case
  proof (cases "x = a")
    case True
    with Cons.prems(3) show ?thesis by simp
  next
    case False
    with Cons.prems(2) have xr: "x \<in> set rest" by simp
    with ar have "f a \<le> f x" by simp
    with ha Cons.prems(3) have e: "f a = f h" by simp
    from Cons.IH[OF sr xr Cons.prems(3)] e show ?thesis by simp
  qed
qed

text \<open>Every PENDING row of the campaign with the least creation time can be the answer.\<close>

lemma findFirst_pending_any:
  assumes x: "x \<in> set ms" "is_pending_of cid x"
      and least: "\<forall>y \<in> set ms. is_pending_of cid y \<longrightarrow> createdAt x \<le> createdAt y"
  shows "\<exists>tie. findFirst_pending tie cid ms = Some x"
proof -
  from x have "filter (is_pending_of cid) ms \<noteq> []" by (auto simp: filter_empty_conv)
  then have "sort_key createdAt (filter (is_pending_of cid) ms) \<noteq> []" by (simp add: sort_key_Nil)
  then obtain h rest where s: "sort_key createdAt (filter (is_pending_of cid) ms) = h # rest"
    by (cases "sort_key createdAt (filter (is_pending_of cid) ms)") auto
  let ?fs = "h # takeWhile (\<lambda>y. createdAt y = createdAt h) rest"
  from x have "x \<in> set (sort_key createdAt (filter (is_pending_of cid) ms))" by simp
  then have xin: "x \<in> set (h # rest)" unfolding s .
  have "h \<in> set (sort_key createdAt (filter (is_pending_of cid) ms))" unfolding s by simp
  then have hp: "h \<in> set ms" "is_pending_of cid h" by simp_all
  from sort_key_head[OF s] x have "createdAt h \<le> createdAt x" by simp
  moreover from least hp have "createdAt x \<le> createdAt h" by simp
  ultimately have e: "createdAt x = createdAt h" by simp
  have so: "sorted (map createdAt (h # rest))"
    using s sorted_sort_key[of createdAt "filter (is_pending_of cid) ms"] by simp
  have "x \<in> set ?fs"
  proof (cases "x = h")
    case True
    then show ?thesis by simp
  next
    case False
    with xin have "x \<in> set rest" by simp
    from takeWhile_sorted_eq[OF so this e] show ?thesis by simp
  qed
  then obtain k where k: "k < length ?fs" "?fs ! k = x" by (metis in_set_conv_nth)
  then have "?fs ! (k mod length ?fs) = x" by simp
  with s have "findFirst_pending k cid ms = Some x"
    by (simp add: findFirst_pending_def Let_def)
  then show ?thesis by blast
qed

lemma upd_msg_others:
  "filter (\<lambda>x. m_id x \<noteq> mid) (upd_msg mid f ms) = filter (\<lambda>x. m_id x \<noteq> mid) ms"
  if "\<And>x. m_id (f x) = m_id x"
  using that by (induction ms) (simp_all add: upd_msg_def)

lemma create_advanced_rows:
  assumes "fst (create_advanced user iid dl items t0 w) = Created j"
  shows "\<exists>rows. messages (snd (create_advanced user iid dl items t0 w)) = messages w @ rows
           \<and> length rows = length items
           \<and> (\<forall>r \<in> set rows. is_pending_of j r \<and> createdAt r = t0)"
proof -
  from assms obtain inst where i: "instances w iid = Some inst" "userId inst = user"
    and j: "j = next_id w"
    by (auto simp: create_advanced_def Let_def split: option.splits if_splits)
  let ?rows = "map (new_row iid inst j t0) (zip [Suc j ..< Suc j + length items] items)"
  have 1: "messages (snd (create_advanced user iid dl items t0 w)) = messages w @ ?rows"
    using i j by (simp add: create_advanced_def Let_def del: upt_Suc)
  have 2: "length ?rows = length items" by (simp del: upt_Suc)
  have 3: "\<forall>r \<in> set ?rows. is_pending_of j r \<and> createdAt r = t0"
    by (auto simp: new_row_def is_pending_of_def simp del: upt_Suc)
  from 1 2 3 show ?thesis by blast
qed

text \<open>
  Claim C7, as amended. \<open>findFirst\<close> finds nothing exactly when the campaign has no
  PENDING message; what it finds is a PENDING message of the campaign whose creation time
  is the least among them (so a message already SENT or FAILED is never selected again),
  and that is the message the iteration goes on to send. The query has no tie-break:
  every PENDING message of the campaign with the least creation time is a possible
  answer, and the messages of a campaign are all created PENDING with one creation
  time. When \<open>findFirst\<close> finds nothing, the run writes COMPLETED with the completion
  time, leaves through \<open>finally\<close> and is over.
\<close>

theorem oldest_pending_selected:
  "(findFirst_pending tie cid (messages w) = None
      \<longleftrightarrow> (\<forall>x \<in> set (messages w). \<not> is_pending_of cid x))
   \<and> (findFirst_pending tie cid (messages w) = Some m \<longrightarrow>
        m \<in> set (messages w) \<and> m_campaignId m = Some cid \<and> m_status m = PENDING
        \<and> (\<forall>x \<in> set (messages w). is_pending_of cid x \<longrightarrow> createdAt m \<le> createdAt x)
        \<and> loop_step now reply tie cid (Find c) w = (Send c m, w))
   \<and> (y \<in> set (messages w) \<and> is_pending_of cid y
        \<and> (\<forall>x \<in> set (messages w). is_pending_of cid x \<longrightarrow> createdAt y \<le> createdAt x) \<longrightarrow>
        (\<exists>t. findFirst_pending t cid (messages w) = Some y
             \<and> loop_step now reply t cid (Find c) w = (Send c y, w)))
   \<and> (fst (create_advanced user iid dl items t0 w) = Created j \<longrightarrow>
        (\<exists>rows. messages (snd (create_advanced user iid dl items t0 w)) = messages w @ rows
           \<and> length rows = length items
           \<and> (\<forall>r \<in> set rows. is_pending_of j r \<and> createdAt r = t0)))
   \<and> (findFirst_pending tie cid (messages w) = None \<and> campaigns w cid = Some c0 \<longrightarrow>
        loop_steps 3 now reply tie cid (Find c, w)
          = (Done None,
             (write_campaign cid (c0\<lparr>status := COMPLETED, completedAt := Some now\<rparr>) w)
               \<lparr>runningProcessors := runningProcessors w - {cid}\<rparr>))"
proof -
  have a: "findFirst_pending tie cid (messages w) = Some m \<longrightarrow>
        m \<in> set (messages w) \<and> m_campaignId m = Some cid \<and> m_status m = PENDING
        \<and> (\<forall>x \<in> set (messages w). is_pending_of cid x \<longrightarrow> createdAt m \<le> createdAt x)
        \<and> loop_step now reply tie cid (Find c) w = (Send c m, w)"
    using findFirst_pending_Some[of tie cid "messages w" m] by (auto simp: is_pending_of_def)
  have b: "findFirst_pending tie cid (messages w) = None \<and> campaigns w cid = Some c0 \<longrightarrow>
        loop_steps 3 now reply tie cid (Find c, w)
          = (Done None,
             (write_campaign cid (c0\<lparr>status := COMPLETED, completedAt := Some now\<rparr>) w)
               \<lparr>runningProcessors := runningProcessors w - {cid}\<rparr>)"
    by (simp add: numeral_eq_Suc update_campaign_def write_campaign_def)
  have c: "y \<in> set (messages w) \<and> is_pending_of cid y
        \<and> (\<forall>x \<in> set (messages w). is_pending_of cid x \<longrightarrow> createdAt y \<le> createdAt x) \<longrightarrow>
        (\<exists>t. findFirst_pending t cid (messages w) = Some y
             \<and> loop_step now reply t cid (Find c) w = (Send c y, w))"
  proof
    assume h: "y \<in> set (messages w) \<and> is_pending_of cid y
        \<and> (\<forall>x \<in> set (messages w). is_pending_of cid x \<longrightarrow> createdAt y \<le> createdAt x)"
    then obtain t where "findFirst_pending t cid (messages w) = Some y"
      using findFirst_pending_any[of y "messages w" cid] by blast
    then have "findFirst_pending t cid (messages w) = Some y
             \<and> loop_step now reply t cid (Find c) w = (Send c y, w)" by simp
    then show "\<exists>t. findFirst_pending t cid (messages w) = Some y
             \<and> loop_step now reply t cid (Find c) w = (Send c y, w)" by blast
  qed
  have d: "fst (create_advanced user iid dl items t0 w) = Created j \<longrightarrow>
        (\<exists>rows. messages (snd (create_advanced user iid dl items t0 w)) = messages w @ rows
           \<and> length rows = length items
           \<and> (\<forall>r \<in> set rows. is_pending_of j r \<and> createdAt r = t0))"
    using create_advanced_rows[of user iid dl items t0 w j] by blast
  from a b c d findFirst_pending_None[of tie cid "messages w"] show ?thesis by (intro conjI)
qed

text \<open>
  Claim C8. When the send throws, the next four steps of the run mark that message
  FAILED with the error's message, add one to \<open>failedMessages\<close> and, after the delay,
  are back at the top of the loop: every other message row, the campaign's other
  columns and \<open>runningProcessors\<close> are as before. A reply of the provider that is not
  ok is thrown with the provider's error text.
\<close>

theorem send_failure_marks_failed:
  "(apiRequest (sessions w) (instances w) (c_instanceId c) reply = (Inl e, sess', requested)
     \<and> m_id m \<in> m_id ` set (messages w) \<and> campaigns w cid = Some c0 \<longrightarrow>
      (\<exists>w'. loop_steps 4 now reply tie cid (Send c m, w) = (Load, w')
         \<and> messages w' = upd_msg (m_id m)
               (\<lambda>x. x\<lparr>m_status := FAILED, errorMsg := Some (error_message e)\<rparr>) (messages w)
         \<and> filter (\<lambda>x. m_id x \<noteq> m_id m) (messages w')
             = filter (\<lambda>x. m_id x \<noteq> m_id m) (messages w)
         \<and> campaigns w' = (campaigns w)(cid \<mapsto> c0\<lparr>failedMessages := failedMessages c0 + 1\<rparr>)
         \<and> runningProcessors w' = runningProcessors w))
   \<and> (msg \<noteq> [] \<longrightarrow> apiRequest_result (Reply False (Some msg) st) = Inl (Error msg))
   \<and> apiRequest_result (Reply False None st) = Inl (Error (''API Request Failed: '' @ st))
   \<and> apiRequest_result (FetchThrows msg) = Inl (Error msg)
   \<and> error_message (Error msg) = msg"
proof -
  have a: "apiRequest (sessions w) (instances w) (c_instanceId c) reply = (Inl e, sess', requested)
     \<and> m_id m \<in> m_id ` set (messages w) \<and> campaigns w cid = Some c0 \<longrightarrow>
      (\<exists>w'. loop_steps 4 now reply tie cid (Send c m, w) = (Load, w')
         \<and> messages w' = upd_msg (m_id m)
               (\<lambda>x. x\<lparr>m_status := FAILED, errorMsg := Some (error_message e)\<rparr>) (messages w)
         \<and> filter (\<lambda>x. m_id x \<noteq> m_id m) (messages w')
             = filter (\<lambda>x. m_id x \<noteq> m_id m) (messages w)
         \<and> campaigns w' = (campaigns w)(cid \<mapsto> c0\<lparr>failedMessages := failedMessages c0 + 1\<rparr>)
         \<and> runningProcessors w' = runningProcessors w)"
    by (auto simp: numeral_eq_Suc update_campaign_def update_message_def upd_msg_others)
  show ?thesis using a
    by (simp add: apiRequest_result_def truthy_def error_message_def)
qed

text \<open>
  Claim C9. At the top of an iteration, with the campaign RUNNING and the instance not
  connected, the run writes PAUSED and is over, with no error and no message row
  touched. From PAUSED a resume is accepted, and with the instance connected again the
  top of the iteration goes on to select a message.
\<close>

theorem disconnected_pauses:
  "(status c = RUNNING \<and> getStatus (sessions w) (c_instanceId c) \<noteq> connected
      \<and> campaigns w cid = Some c0 \<longrightarrow>
      loop_steps 3 now reply tie cid (Check (Some c), w)
        = (Done None,
           (write_campaign cid (c0\<lparr>status := PAUSED\<rparr>) w)
             \<lparr>runningProcessors := runningProcessors w - {cid}\<rparr>))
   \<and> messages ((write_campaign cid (c0\<lparr>status := PAUSED\<rparr>) w)
             \<lparr>runningProcessors := runningProcessors w - {cid}\<rparr>) = messages w
   \<and> control_check (Some (c0\<lparr>status := PAUSED\<rparr>)) resume = Inr RUNNING
   \<and> (status c = RUNNING \<and> getStatus (sessions w) (c_instanceId c) = connected \<longrightarrow>
        loop_step now reply tie cid (Check (Some c)) w = (Find c, w))"
  by (simp add: numeral_eq_Suc update_campaign_def write_campaign_def control_check_def)

subsection \<open>The iteration on the small world\<close>

definition rejected :: provider_reply where
  "rejected = Reply False (Some ''(#131030) Recipient phone number not in allowed list'') ''Bad Request''"

lemma demo_message_simps:
  "m_id (demo_message mid t st) = mid" "createdAt (demo_message mid t st) = t"
  "m_status (demo_message mid t st) = st" "m_campaignId (demo_message mid t st) = Some 0"
  by (simp_all add: demo_message_def new_row_def)

lemma demo_world_simps:
  "messages (demo_world st ms) = ms" "campaigns (demo_world st ms) 0 = Some (demo_campaign st)"
  "runningProcessors (demo_world st ms) = {0}"
  by (simp_all add: demo_world_def)

text \<open>
  A campaign for three recipients, just created: its rows have the ids 1, 2, 3 in the
  order of the recipients, and one creation time.
\<close>

definition three_recipients :: "(string \<times> content) list" where
  "three_recipients =
     [(''5511'', demo_content), (''5522'', demo_content), (''5533'', demo_content)]"

definition created_world :: world where
  "created_world = snd (create_advanced ''u1'' ''i1'' 1000 three_recipients 7 demo_init)"

theorem creation_order_counterexample:
  "map m_id (messages created_world) = [1, 2, 3]
   \<and> map m_to (messages created_world) = [''5511'', ''5522'', ''5533'']
   \<and> map m_campaignId (messages created_world) = [Some 0, Some 0, Some 0]
   \<and> map m_status (messages created_world) = [PENDING, PENDING, PENDING]
   \<and> map createdAt (messages created_world) = [7, 7, 7]
   \<and> map_option m_id (findFirst_pending 2 0 (messages created_world)) = Some 3
   \<and> map_option m_to (findFirst_pending 2 0 (messages created_world)) = Some ''5533''
   \<and> fst (loop_step 10 rejected 2 0 (Find (demo_campaign RUNNING)) created_world)
       = Send (demo_campaign RUNNING) (messages created_world ! 2)"
  by code_simp

lemma created_rows:
  "map m_id (messages created_world) = [1, 2, 3]"
  "map createdAt (messages created_world) = [7, 7, 7]"
  "map m_status (messages created_world) = [PENDING, PENDING, PENDING]"
  "findFirst_pending 2 0 (messages created_world) = Some (messages created_world ! 2)"
  "messages created_world ! 1 \<in> set (messages created_world)"
  "is_pending_of 0 (messages created_world ! 1)"
  "createdAt (messages created_world ! 1) = 7"
  "fst (create_advanced ''u1'' ''i1'' 1000 three_recipients 7 demo_init) = Created 0"
  "messages demo_init = []"
  by code_simp+

lemma created_least:
  "\<forall>x \<in> set (messages created_world). is_pending_of 0 x \<longrightarrow>
     createdAt (messages created_world ! 1) \<le> createdAt x"
proof
  fix x assume "x \<in> set (messages created_world)"
  then have "createdAt x \<in> set (map createdAt (messages created_world))" by simp
  then have "createdAt x = 7" unfolding created_rows(2) by simp
  with created_rows(7)
  show "is_pending_of 0 x \<longrightarrow> createdAt (messages created_world ! 1) \<le> createdAt x"
    by simp
qed

lemma demo_find_none: "findFirst_pending 0 0 [demo_message 1 7 SENT, demo_message 2 9 FAILED] = None"
  unfolding findFirst_pending_def is_pending_of_def by (simp add: demo_message_simps)

theorem oldest_pending_selected_witness:
  "findFirst_pending 2 0 (messages created_world) = Some (messages created_world ! 2)
   \<and> m_status (messages created_world ! 2) = PENDING
   \<and> m_campaignId (messages created_world ! 2) = Some 0
   \<and> loop_step 10 rejected 2 0 (Find (demo_campaign RUNNING)) created_world
       = (Send (demo_campaign RUNNING) (messages created_world ! 2), created_world)
   \<and> (\<exists>t. findFirst_pending t 0 (messages created_world) = Some (messages created_world ! 1)
          \<and> loop_step 10 rejected t 0 (Find (demo_campaign RUNNING)) created_world
              = (Send (demo_campaign RUNNING) (messages created_world ! 1), created_world))
   \<and> fst (create_advanced ''u1'' ''i1'' 1000 three_recipients 7 demo_init) = Created 0
   \<and> length (messages created_world) = length three_recipients
   \<and> map createdAt (messages created_world) = [7, 7, 7]
   \<and> findFirst_pending 0 0 (messages (demo_world RUNNING [demo_message 1 7 SENT, demo_message 2 9 FAILED]))
       = None
   \<and> loop_steps 3 10 rejected 0 0
        (Find (demo_campaign RUNNING), demo_world RUNNING [demo_message 1 7 SENT, demo_message 2 9 FAILED])
       = (Done None,
          (write_campaign 0 ((demo_campaign RUNNING)\<lparr>status := COMPLETED, completedAt := Some 10\<rparr>)
             (demo_world RUNNING [demo_message 1 7 SENT, demo_message 2 9 FAILED]))
            \<lparr>runningProcessors := {}\<rparr>)"
proof -
  note a = oldest_pending_selected
             [where tie = 2 and cid = 0 and w = created_world and m = "messages created_world ! 2"
                and now = 10 and reply = rejected and c = "demo_campaign RUNNING"
                and y = "messages created_world ! 1"]
  note c = oldest_pending_selected
             [where w = demo_init and user = "''u1''" and iid = "''i1''" and dl = 1000
                and items = three_recipients and ?t0.0 = 7 and j = 0]
  note b = oldest_pending_selected
             [where tie = 0 and cid = 0
                and w = "demo_world RUNNING [demo_message 1 7 SENT, demo_message 2 9 FAILED]"
                and now = 10 and reply = rejected and c = "demo_campaign RUNNING"
                and c0 = "demo_campaign RUNNING"]
  have h2: "findFirst_pending 0 0
              (messages (demo_world RUNNING [demo_message 1 7 SENT, demo_message 2 9 FAILED])) = None"
    unfolding demo_world_simps by (rule demo_find_none)
  have 1: "findFirst_pending 2 0 (messages created_world) = Some (messages created_world ! 2)"
    by (rule created_rows(4))
  from a 1 have 2: "m_status (messages created_world ! 2) = PENDING
      \<and> m_campaignId (messages created_world ! 2) = Some 0
      \<and> loop_step 10 rejected 2 0 (Find (demo_campaign RUNNING)) created_world
          = (Send (demo_campaign RUNNING) (messages created_world ! 2), created_world)"
    by blast
  from a created_rows(5,6) created_least
  have 3: "\<exists>t. findFirst_pending t 0 (messages created_world) = Some (messages created_world ! 1)
          \<and> loop_step 10 rejected t 0 (Find (demo_campaign RUNNING)) created_world
              = (Send (demo_campaign RUNNING) (messages created_world ! 1), created_world)"
    by blast
  note a4 = c[THEN conjunct2, THEN conjunct2, THEN conjunct2, THEN conjunct1]
  from a4[THEN mp, OF created_rows(8)]
  have "\<exists>rows. messages (snd (create_advanced ''u1'' ''i1'' 1000 three_recipients 7 demo_init))
                  = messages demo_init @ rows \<and> length rows = length three_recipients
           \<and> (\<forall>r \<in> set rows. is_pending_of 0 r \<and> createdAt r = 7)" .
  then have 4: "length (messages created_world) = length three_recipients"
    by (auto simp: created_world_def created_rows(9))
  from b h2 have 5: "loop_steps 3 10 rejected 0 0
        (Find (demo_campaign RUNNING), demo_world RUNNING [demo_message 1 7 SENT, demo_message 2 9 FAILED])
       = (Done None,
          (write_campaign 0 ((demo_campaign RUNNING)\<lparr>status := COMPLETED, completedAt := Some 10\<rparr>)
             (demo_world RUNNING [demo_message 1 7 SENT, demo_message 2 9 FAILED]))
            \<lparr>runningProcessors := {}\<rparr>)"
    by (simp add: demo_world_simps)
  from 1 2 3 4 5 h2 created_rows(2,8) show ?thesis by simp
qed

lemma demo_api:
  "apiRequest (sessions (demo_world RUNNING demo_messages)) (instances (demo_world RUNNING demo_messages))
      (c_instanceId (demo_campaign RUNNING)) rejected
    = (Inl (Error ''(#131030) Recipient phone number not in allowed list''),
       [''i1'' \<mapsto> demo_session], True)"
  by (simp add: apiRequest_def getSession_def demo_world_def demo_campaign_def rejected_def
                apiRequest_result_def truthy_def)

theorem send_failure_marks_failed_witness:
  "apiRequest (sessions (demo_world RUNNING demo_messages)) (instances (demo_world RUNNING demo_messages))
      (c_instanceId (demo_campaign RUNNING)) rejected
    = (Inl (Error ''(#131030) Recipient phone number not in allowed list''),
       [''i1'' \<mapsto> demo_session], True)
   \<and> (\<exists>w'. loop_steps 4 10 rejected 0 0
              (Send (demo_campaign RUNNING) (demo_message 3 8 PENDING), demo_world RUNNING demo_messages)
            = (Load, w')
          \<and> messages w'
              = [demo_message 1 7 SENT, demo_message 2 9 PENDING,
                 (demo_message 3 8 PENDING)
                   \<lparr>m_status := FAILED,
                     errorMsg := Some ''(#131030) Recipient phone number not in allowed list''\<rparr>]
          \<and> campaigns w' 0 = Some ((demo_campaign RUNNING)\<lparr>failedMessages := 1\<rparr>)
          \<and> runningProcessors w' = {0})"
proof -
  have i: "m_id (demo_message 3 8 PENDING) \<in> m_id ` set (messages (demo_world RUNNING demo_messages))"
    by (simp add: demo_world_simps demo_messages_def demo_message_simps)
  have u: "upd_msg (m_id (demo_message 3 8 PENDING))
             (\<lambda>x. x\<lparr>m_status := FAILED,
                     errorMsg := Some (error_message
                        (Error ''(#131030) Recipient phone number not in allowed list''))\<rparr>)
             (messages (demo_world RUNNING demo_messages))
           = [demo_message 1 7 SENT, demo_message 2 9 PENDING,
                 (demo_message 3 8 PENDING)
                   \<lparr>m_status := FAILED,
                     errorMsg := Some ''(#131030) Recipient phone number not in allowed list''\<rparr>]"
    by (simp add: upd_msg_def demo_world_simps demo_messages_def demo_message_simps error_message_def)
  have f: "failedMessages (demo_campaign RUNNING) + 1 = 1" by (simp add: demo_campaign_def)
  from send_failure_marks_failed
         [of "demo_world RUNNING demo_messages" "demo_campaign RUNNING" rejected
             "Error ''(#131030) Recipient phone number not in allowed list''"
             "[''i1'' \<mapsto> demo_session]" True "demo_message 3 8 PENDING" 0 "demo_campaign RUNNING" 10
             0 "''x''" "''y''"]
       demo_api i u f
  show ?thesis by (auto simp: demo_world_simps)
qed

definition offline :: "world \<Rightarrow> world" where
  "offline w = w\<lparr>sessions := disconnect (sessions w) ''i1''\<rparr>"

lemma offline_messages: "messages (offline w) = messages w"
  by (simp add: offline_def)

theorem disconnected_pauses_witness:
  "status (demo_campaign RUNNING) = RUNNING
   \<and> getStatus (sessions (offline (demo_world RUNNING demo_messages)))
        (c_instanceId (demo_campaign RUNNING)) = disconnected
   \<and> loop_steps 3 10 rejected 0 0
        (Check (Some (demo_campaign RUNNING)), offline (demo_world RUNNING demo_messages))
       = (Done None, (offline (demo_world PAUSED demo_messages))\<lparr>runningProcessors := {}\<rparr>)
   \<and> messages ((offline (demo_world PAUSED demo_messages))\<lparr>runningProcessors := {}\<rparr>) = demo_messages
   \<and> loop_step 10 rejected 0 0 (Check (Some (demo_campaign RUNNING))) (demo_world RUNNING demo_messages)
       = (Find (demo_campaign RUNNING), demo_world RUNNING demo_messages)"
proof -
  have s: "status (demo_campaign RUNNING) = RUNNING" by (simp add: demo_campaign_def)
  have d: "getStatus (sessions (offline (demo_world RUNNING demo_messages)))
        (c_instanceId (demo_campaign RUNNING)) = disconnected"
    by (simp add: offline_def disconnect_def getStatus_def demo_world_def demo_campaign_def)
  have c: "campaigns (offline (demo_world RUNNING demo_messages)) 0 = Some (demo_campaign RUNNING)"
    by (simp add: offline_def demo_world_def)
  have w: "(write_campaign 0 ((demo_campaign RUNNING)\<lparr>status := PAUSED\<rparr>)
              (offline (demo_world RUNNING demo_messages)))
             \<lparr>runningProcessors := runningProcessors (offline (demo_world RUNNING demo_messages)) - {0}\<rparr>
           = (offline (demo_world PAUSED demo_messages))\<lparr>runningProcessors := {}\<rparr>"
    by (simp add: write_campaign_def offline_def demo_world_def demo_campaign_def)
  from disconnected_pauses
         [of "demo_campaign RUNNING" "offline (demo_world RUNNING demo_messages)" 0
             "demo_campaign RUNNING" 10 rejected]
       disconnected_pauses
         [of "demo_campaign RUNNING" "demo_world RUNNING demo_messages" 0
             "demo_campaign RUNNING" 10 rejected]
       s d c w
  show ?thesis by (simp add: demo_connected offline_messages demo_world_simps)
qed

section \<open>Inbound webhook (POST /webhook)\<close>

text \<open>
  The provider's payload, as far as the handler reads it. A field the handler
  dereferences without a guard is optional here, so that its absence is an input:
  \<open>change.value\<close> and \<open>status.status\<close>; a body that is the JSON \<open>null\<close> is
  \<open>Json None\<close>. A body that is not JSON at all is \<open>Unparseable\<close>.
\<close>

record wa_contact =
  wa_id :: string
  profile_name :: "string option"

record wa_media =
  media_id :: "string option"
  caption :: "string option"
  mime_type :: "string option"

record wa_message =
  wm_from :: string
  wm_id :: string
  wm_type :: string
  wm_timestamp :: nat
  wm_text :: "string option"
  wm_media :: "wa_media option"

record wa_status_update =
  ws_id :: "string option"
  ws_status :: "string option"

record wa_metadata =
  phone_number_id :: "string option"
  display_phone_number :: "string option"

record wa_value =
  metadata :: "wa_metadata option"
  wv_messages :: "wa_message list option"
  wv_statuses :: "wa_status_update list option"
  wv_contacts :: "wa_contact list option"

record wa_change =
  change_value :: "wa_value option"

record wa_entry =
  changes :: "wa_change list option"

record wa_body =
  object :: "string option"
  entry :: "wa_entry list option"

datatype request_body = Unparseable | Json "wa_body option"

record contact =
  ct_id :: nat
  ct_instanceId :: ident
  waId :: string
  pushName :: "string option"

datatype event_data = MessageData wa_message wa_metadata | AckData wa_status_update

text \<open>
  What the handler works on: the store's instances, contacts and messages, the calls of
  \<open>dispatchWebhook\<close> made so far (instance id, event name, data) and the media downloads
  started in the background (instance id, message id, type, mime type).
\<close>

record hook_state =
  h_instances :: "(ident \<times> instance_row) list"
  h_contacts :: "contact list"
  h_messages :: "message list"
  h_next_id :: nat
  emitted :: "(ident \<times> string \<times> event_data) list"
  downloads :: "(ident \<times> string \<times> string \<times> string option) list"

datatype http_response = StatusOk | InternalServerError

definition type_error :: thrown where
  "type_error = Error ''Cannot read properties of undefined''"

definition invalid_enum :: thrown where
  "invalid_enum = Error ''Invalid value for argument status. Expected MessageStatus.''"

text \<open>\<open>toUpperCase\<close> on the ASCII letters, and the store's \<open>MessageStatus\<close> enum.\<close>

definition upper_char :: "char \<Rightarrow> char" where
  "upper_char c =
     (let n = (of_char c :: nat) in if 97 \<le> n \<and> n \<le> 122 then char_of (n - 32) else c)"

definition toUpperCase :: "string \<Rightarrow> string" where
  "toUpperCase s = map upper_char s"

definition parse_status :: "string \<Rightarrow> message_status option" where
  "parse_status s =
     (if s = ''PENDING'' then Some PENDING
      else if s = ''SENT'' then Some SENT
      else if s = ''DELIVERED'' then Some DELIVERED
      else if s = ''READ'' then Some READ
      else if s = ''FAILED'' then Some FAILED
      else None)"

text \<open>\<open>instance.findFirst({where: {waPhoneNumberId}})\<close>, guarded by the test on the metadata.\<close>

definition find_instance :: "wa_metadata option \<Rightarrow> hook_state \<Rightarrow> (ident \<times> instance_row) option" where
  "find_instance md s =
     (case md of
        None \<Rightarrow> None
      | Some m \<Rightarrow>
          if truthy (phone_number_id m)
          then List.find (\<lambda>(i, r). waPhoneNumberId r = phone_number_id m) (h_instances s)
          else None)"

definition push_name_of :: "wa_value \<Rightarrow> string \<Rightarrow> string option" where
  "push_name_of v from =
     (case wv_contacts v of
        None \<Rightarrow> None
      | Some cs \<Rightarrow>
          (case List.find (\<lambda>c. wa_id c = from) cs of
             None \<Rightarrow> None
           | Some c \<Rightarrow> profile_name c))"

text \<open>Step 1 of the handler: the contact is looked up, created, or renamed; its id and the state.\<close>

definition upsert_contact :: "ident \<Rightarrow> string \<Rightarrow> string option \<Rightarrow> hook_state \<Rightarrow> nat \<times> hook_state" where
  "upsert_contact iid from pn s =
     (case List.find (\<lambda>c. ct_instanceId c = iid \<and> waId c = from) (h_contacts s) of
        None \<Rightarrow>
          (h_next_id s,
           s\<lparr>h_contacts := h_contacts s @
                [\<lparr>ct_id = h_next_id s, ct_instanceId = iid, waId = from,
                  pushName = (if truthy pn then pn else Some from)\<rparr>],
             h_next_id := Suc (h_next_id s)\<rparr>)
      | Some c \<Rightarrow>
          if truthy pn \<and> pushName c \<noteq> pn
          then (ct_id c,
                s\<lparr>h_contacts := map (\<lambda>x. if ct_id x = ct_id c then x\<lparr>pushName := pn\<rparr> else x)
                                    (h_contacts s)\<rparr>)
          else (ct_id c, s))"

definition media_types :: "string list" where
  "media_types = [''image'', ''video'', ''audio'', ''document'', ''sticker'']"

definition body_text :: "wa_message \<Rightarrow> string option" where
  "body_text msg =
     (if wm_type msg = ''text'' then wm_text msg
      else if wm_type msg = ''image'' \<or> wm_type msg = ''video'' \<or> wm_type msg = ''document''
      then (case wm_media msg of None \<Rightarrow> None | Some md \<Rightarrow> caption md)
      else Some [])"

definition media_ref :: "wa_message \<Rightarrow> string option" where
  "media_ref msg =
     (if wm_type msg = ''image'' \<or> wm_type msg = ''video'' \<or> wm_type msg = ''audio''
         \<or> wm_type msg = ''document''
      then (case wm_media msg of None \<Rightarrow> None | Some md \<Rightarrow> media_id md)
      else Some [])"

text \<open>
  The body of the loop over \<open>value.messages\<close>. Step 2 persists the message only when no
  row has its provider message id, and starts the media download under the same test;
  the \<open>message\<close> event is dispatched after that test, for a stored and for a new
  message alike.
\<close>

definition process_message ::
  "nat \<Rightarrow> wa_value \<Rightarrow> wa_message \<Rightarrow> hook_state \<Rightarrow> thrown option \<times> hook_state" where
  "process_message now v msg s =
     (case find_instance (metadata v) s of
        None \<Rightarrow> (None, s)
      | Some (iid, inst) \<Rightarrow>
          (case upsert_contact iid (wm_from msg) (push_name_of v (wm_from msg)) s of
             (cid, s1) \<Rightarrow>
               let existingMessage =
                     List.find (\<lambda>m. waMessageId m = Some (wm_id msg)) (h_messages s1);
                   s2 = (case existingMessage of
                           Some m \<Rightarrow> s1
                         | None \<Rightarrow>
                             s1\<lparr>h_messages := h_messages s1 @
                                   [\<lparr> m_id = h_next_id s1, m_instanceId = iid,
                                      m_campaignId = None, contactId = Some cid,
                                      waMessageId = Some (wm_id msg), m_from = wm_from msg,
                                      m_to = (case display_phone_number (the (metadata v)) of
                                                None \<Rightarrow> [] | Some n \<Rightarrow> n),
                                      m_direction = INBOUND, body = body_text msg,
                                      mediaUrl = media_ref msg, mediaType = Some (wm_type msg),
                                      m_status = DELIVERED, errorMsg = None,
                                      sentAt = Some (wm_timestamp msg * 1000),
                                      deliveredAt = None, readAt = None, createdAt = now \<rparr>],
                                h_next_id := Suc (h_next_id s1),
                                downloads :=
                                  (if wm_type msg \<in> set media_types \<and> truthy (media_ref msg)
                                   then downloads s1 @
                                          [(iid, wm_id msg, wm_type msg,
                                            (case wm_media msg of None \<Rightarrow> None
                                             | Some md \<Rightarrow> mime_type md))]
                                   else downloads s1)\<rparr>)
               in (None,
                   s2\<lparr>emitted := emitted s2 @
                         [(iid, ''message'', MessageData msg (the (metadata v)))]\<rparr>)))"

text \<open>\<open>message.updateMany({where: {waMessageId}})\<close> with the new status and its timestamp.\<close>

definition apply_status :: "nat \<Rightarrow> string \<Rightarrow> string \<Rightarrow> message_status \<Rightarrow> message \<Rightarrow> message" where
  "apply_status now sid raw st m =
     (if waMessageId m = Some sid
      then m\<lparr>m_status := st,
             deliveredAt := (if raw = ''delivered'' then Some now else deliveredAt m),
             readAt := (if raw = ''read'' then Some now else readAt m)\<rparr>
      else m)"

text \<open>
  The body of the loop over \<open>value.statuses\<close>. \<open>status.status.toUpperCase()\<close> throws on a
  status without that field, and the store rejects a value outside its enum.
\<close>

definition process_status ::
  "nat \<Rightarrow> wa_value \<Rightarrow> wa_status_update \<Rightarrow> hook_state \<Rightarrow> thrown option \<times> hook_state" where
  "process_status now v st s =
     (case find_instance (metadata v) s of
        None \<Rightarrow> (None, s)
      | Some (iid, inst) \<Rightarrow>
          let ack = (\<lambda>s'. s'\<lparr>emitted := emitted s' @ [(iid, ''message_ack'', AckData st)]\<rparr>)
          in if truthy (ws_id st) then
               (case ws_status st of
                  None \<Rightarrow> (Some type_error, s)
                | Some raw \<Rightarrow>
                    (case parse_status (toUpperCase raw) of
                       None \<Rightarrow> (Some invalid_enum, s)
                     | Some ms \<Rightarrow>
                         (None,
                          ack (s\<lparr>h_messages :=
                                   map (apply_status now (the (ws_id st)) raw ms) (h_messages s)\<rparr>))))
             else (None, ack s))"

text \<open>A \<open>for\<close> loop whose body may throw: the first exception ends it, with what was done so far.\<close>

fun for_each ::
  "('a \<Rightarrow> hook_state \<Rightarrow> thrown option \<times> hook_state) \<Rightarrow> 'a list \<Rightarrow> hook_state
     \<Rightarrow> thrown option \<times> hook_state" where
  "for_each f [] s = (None, s)"
| "for_each f (x # xs) s =
     (case f x s of
        (Some e, s') \<Rightarrow> (Some e, s')
      | (None, s') \<Rightarrow> for_each f xs s')"

definition process_change :: "nat \<Rightarrow> wa_change \<Rightarrow> hook_state \<Rightarrow> thrown option \<times> hook_state" where
  "process_change now ch s =
     (case change_value ch of
        None \<Rightarrow> (Some type_error, s)
      | Some v \<Rightarrow>
          (case for_each (process_message now v)
                  (case wv_messages v of None \<Rightarrow> [] | Some ms \<Rightarrow> ms) s of
             (Some e, s') \<Rightarrow> (Some e, s')
           | (None, s') \<Rightarrow>
               for_each (process_status now v)
                 (case wv_statuses v of None \<Rightarrow> [] | Some sts \<Rightarrow> sts) s'))"

definition process_entry :: "nat \<Rightarrow> wa_entry \<Rightarrow> hook_state \<Rightarrow> thrown option \<times> hook_state" where
  "process_entry now en s =
     for_each (process_change now) (case changes en of None \<Rightarrow> [] | Some cs \<Rightarrow> cs) s"

text \<open>
  The handler: one \<open>try\<close> around the parse and the three nested loops, one \<open>catch\<close> that
  answers 500.
\<close>

definition webhook_post :: "nat \<Rightarrow> request_body \<Rightarrow> hook_state \<Rightarrow> http_response \<times> hook_state" where
  "webhook_post now req s =
     (case req of
        Unparseable \<Rightarrow> (InternalServerError, s)
      | Json None \<Rightarrow> (InternalServerError, s)
      | Json (Some b) \<Rightarrow>
          if object b = Some ''whatsapp_business_account'' then
            (case for_each (process_entry now)
                    (case entry b of None \<Rightarrow> [] | Some es \<Rightarrow> es) s of
               (Some e, s') \<Rightarrow> (InternalServerError, s')
             | (None, s') \<Rightarrow> (StatusOk, s'))
          else (StatusOk, s))"

section \<open>Properties of the inbound webhook\<close>

definition rows_with :: "string \<Rightarrow> hook_state \<Rightarrow> nat" where
  "rows_with wamid s = length (filter (\<lambda>m. waMessageId m = Some wamid) (h_messages s))"

definition message_events :: "hook_state \<Rightarrow> nat" where
  "message_events s = length (filter (\<lambda>e. fst (snd e) = ''message'') (emitted s))"

lemma upsert_contact_keeps:
  "h_messages (snd (upsert_contact iid sender pn s)) = h_messages s"
  "h_instances (snd (upsert_contact iid sender pn s)) = h_instances s"
  "emitted (snd (upsert_contact iid sender pn s)) = emitted s"
  "downloads (snd (upsert_contact iid sender pn s)) = downloads s"
  by (simp_all add: upsert_contact_def split: option.splits)

lemma find_instance_cong:
  "h_instances s' = h_instances s \<Longrightarrow> find_instance md s' = find_instance md s"
  by (simp add: find_instance_def split: option.splits)

lemma find_None_filter: "List.find P xs = None \<longleftrightarrow> filter P xs = []"
  by (auto simp: find_None_iff filter_empty_conv)

lemma find_Some_filter: "List.find P xs = Some x \<Longrightarrow> filter P xs \<noteq> []"
  by (metis find_None_filter option.distinct(1))

lemma process_message_unknown:
  "find_instance (metadata v) s = None \<Longrightarrow> process_message now v msg s = (None, s)"
  by (simp add: process_message_def)

lemma process_message_known:
  assumes "find_instance (metadata v) s = Some (iid, inst)"
  shows "\<exists>s'. process_message now v msg s = (None, s')
           \<and> h_instances s' = h_instances s
           \<and> emitted s' = emitted s @ [(iid, ''message'', MessageData msg (the (metadata v)))]
           \<and> (rows_with (wm_id msg) s = 0 \<longrightarrow> rows_with (wm_id msg) s' = 1)
           \<and> (rows_with (wm_id msg) s \<noteq> 0 \<longrightarrow>
                 h_messages s' = h_messages s \<and> downloads s' = downloads s)"
proof -
  obtain cid s1 where u: "upsert_contact iid (wm_from msg) (push_name_of v (wm_from msg)) s = (cid, s1)"
    by (cases "upsert_contact iid (wm_from msg) (push_name_of v (wm_from msg)) s")
  have k: "h_messages s1 = h_messages s" "h_instances s1 = h_instances s"
          "emitted s1 = emitted s" "downloads s1 = downloads s"
    using upsert_contact_keeps[of iid "wm_from msg" "push_name_of v (wm_from msg)" s] u by simp_all
  show ?thesis
  proof (cases "List.find (\<lambda>m. waMessageId m = Some (wm_id msg)) (h_messages s1)")
    case None
    then have z: "filter (\<lambda>m. waMessageId m = Some (wm_id msg)) (h_messages s) = []"
      using k by (simp add: find_None_filter)
    show ?thesis
      using assms u None k z
      by (simp add: process_message_def Let_def rows_with_def)
  next
    case (Some m)
    then have nz: "filter (\<lambda>m. waMessageId m = Some (wm_id msg)) (h_messages s) \<noteq> []"
      using k find_Some_filter[OF Some] by simp
    show ?thesis
      using assms u Some k nz
      by (simp add: process_message_def Let_def rows_with_def)
  qed
qed

text \<open>
  Claim C1, as amended. A message of an instance the store does not know is dropped.
  For a known instance, ingesting a message and then the same message again creates a
  row only the first time (and only if no row had its provider message id): the second
  ingestion leaves the message rows and the downloads as they are; but each of the two
  ingestions dispatches a \<open>message\<close> event, so two ingestions emit two events.
\<close>

theorem duplicate_message_row_not_event:
  "(find_instance (metadata v) s = None \<longrightarrow> process_message now v msg s = (None, s))
   \<and> (find_instance (metadata v) s = Some (iid, inst) \<longrightarrow>
        (\<exists>s1 s2. process_message now v msg s = (None, s1)
            \<and> process_message now' v msg s1 = (None, s2)
            \<and> (rows_with (wm_id msg) s = 0 \<longrightarrow> rows_with (wm_id msg) s1 = 1)
            \<and> (rows_with (wm_id msg) s \<noteq> 0 \<longrightarrow>
                  h_messages s1 = h_messages s \<and> downloads s1 = downloads s)
            \<and> h_messages s2 = h_messages s1 \<and> downloads s2 = downloads s1
            \<and> message_events s1 = message_events s + 1
            \<and> message_events s2 = message_events s + 2
            \<and> emitted s2 = emitted s1 @ [(iid, ''message'', MessageData msg (the (metadata v)))]))"
proof -
  have b: "find_instance (metadata v) s = Some (iid, inst) \<longrightarrow>
        (\<exists>s1 s2. process_message now v msg s = (None, s1)
            \<and> process_message now' v msg s1 = (None, s2)
            \<and> (rows_with (wm_id msg) s = 0 \<longrightarrow> rows_with (wm_id msg) s1 = 1)
            \<and> (rows_with (wm_id msg) s \<noteq> 0 \<longrightarrow>
                  h_messages s1 = h_messages s \<and> downloads s1 = downloads s)
            \<and> h_messages s2 = h_messages s1 \<and> downloads s2 = downloads s1
            \<and> message_events s1 = message_events s + 1
            \<and> message_events s2 = message_events s + 2
            \<and> emitted s2 = emitted s1 @ [(iid, ''message'', MessageData msg (the (metadata v)))])"
  proof
    assume f: "find_instance (metadata v) s = Some (iid, inst)"
    from process_message_known[OF f, of now msg] obtain s1 where
      p1: "process_message now v msg s = (None, s1)" and i1: "h_instances s1 = h_instances s"
      and e1: "emitted s1 = emitted s @ [(iid, ''message'', MessageData msg (the (metadata v)))]"
      and r0: "rows_with (wm_id msg) s = 0 \<longrightarrow> rows_with (wm_id msg) s1 = 1"
      and r1: "rows_with (wm_id msg) s \<noteq> 0 \<longrightarrow>
                 h_messages s1 = h_messages s \<and> downloads s1 = downloads s"
      by auto
    have f1: "find_instance (metadata v) s1 = Some (iid, inst)"
      using f find_instance_cong[OF i1] by simp
    have nz: "rows_with (wm_id msg) s1 \<noteq> 0"
      using r0 r1 by (cases "rows_with (wm_id msg) s = 0") (auto simp: rows_with_def)
    from process_message_known[OF f1, of now' msg] nz obtain s2 where
      p2: "process_message now' v msg s1 = (None, s2)"
      and e2: "emitted s2 = emitted s1 @ [(iid, ''message'', MessageData msg (the (metadata v)))]"
      and r2: "h_messages s2 = h_messages s1 \<and> downloads s2 = downloads s1"
      by auto
    have m1: "message_events s1 = message_events s + 1" using e1 by (simp add: message_events_def)
    have m2: "message_events s2 = message_events s + 2" using e1 e2 by (simp add: message_events_def)
    show "\<exists>s1 s2. process_message now v msg s = (None, s1)
            \<and> process_message now' v msg s1 = (None, s2)
            \<and> (rows_with (wm_id msg) s = 0 \<longrightarrow> rows_with (wm_id msg) s1 = 1)
            \<and> (rows_with (wm_id msg) s \<noteq> 0 \<longrightarrow>
                  h_messages s1 = h_messages s \<and> downloads s1 = downloads s)
            \<and> h_messages s2 = h_messages s1 \<and> downloads s2 = downloads s1
            \<and> message_events s1 = message_events s + 1
            \<and> message_events s2 = message_events s + 2
            \<and> emitted s2 = emitted s1 @ [(iid, ''message'', MessageData msg (the (metadata v)))]"
      using p1 p2 r0 r1 r2 m1 m2 e2 by (intro exI[of _ s1] exI[of _ s2]) simp
  qed
  show ?thesis using b process_message_unknown[of v s now msg] by blast
qed

definition entries_of :: "wa_body \<Rightarrow> wa_entry list" where
  "entries_of b = (case entry b of None \<Rightarrow> [] | Some es \<Rightarrow> es)"

lemma for_each_append:
  "for_each f xs s = (None, s1) \<Longrightarrow> for_each f (xs @ ys) s = for_each f ys s1"
  by (induction xs arbitrary: s) (auto split: prod.splits option.splits)

lemma for_each_abort:
  "for_each f xs s = (None, s1) \<Longrightarrow> f x s1 = (Some e, s2)
     \<Longrightarrow> for_each f (xs @ x # ys) s = (Some e, s2)"
  by (simp add: for_each_append)

lemma webhook_post_ok_iff:
  "fst (webhook_post now req s) = StatusOk \<longleftrightarrow>
     (\<exists>b. req = Json (Some b)
        \<and> (object b = Some ''whatsapp_business_account'' \<longrightarrow>
             fst (for_each (process_entry now) (entries_of b) s) = None))"
  by (auto simp: webhook_post_def entries_of_def split: request_body.splits option.splits prod.splits)

lemma dropped_items:
  "find_instance (metadata v) s = None \<Longrightarrow>
     process_message now v msg s = (None, s) \<and> process_status now v st s = (None, s)"
  by (simp add: process_message_def process_status_def)

text \<open>
  Claim C6, as amended. The handler answers \<open>{status: "ok"}\<close> exactly when the body
  parsed to a JSON value other than \<open>null\<close> and no exception was raised while its
  entries were processed; in every other case it answers 500. An item whose
  phone-number id matches no instance is dropped without an exception, so it does not
  stop its siblings. An exception raised by one item ends the loops: the items after it
  are not processed, and what the items before it did stays done.
\<close>

theorem ingest_acknowledges_unless_exception:
  "(fst (webhook_post now req s) = StatusOk \<longleftrightarrow>
     (\<exists>b. req = Json (Some b)
        \<and> (object b = Some ''whatsapp_business_account'' \<longrightarrow>
             fst (for_each (process_entry now) (entries_of b) s) = None)))
   \<and> (fst (webhook_post now req s) \<noteq> StatusOk \<longrightarrow>
         fst (webhook_post now req s) = InternalServerError)
   \<and> (find_instance (metadata v) s = None \<longrightarrow>
         process_message now v msg s = (None, s) \<and> process_status now v st s = (None, s))
   \<and> (for_each f xs s = (None, s1) \<longrightarrow> for_each f (xs @ ys) s = for_each f ys s1)
   \<and> (for_each f xs s = (None, s1) \<and> f x s1 = (Some e, s2) \<longrightarrow>
         for_each f (xs @ x # ys) s = (Some e, s2))"
proof (intro conjI)
  show "fst (webhook_post now req s) = StatusOk \<longleftrightarrow>
     (\<exists>b. req = Json (Some b)
        \<and> (object b = Some ''whatsapp_business_account'' \<longrightarrow>
             fst (for_each (process_entry now) (entries_of b) s) = None))"
    by (rule webhook_post_ok_iff)
  show "fst (webhook_post now req s) \<noteq> StatusOk \<longrightarrow>
         fst (webhook_post now req s) = InternalServerError"
    by (cases "fst (webhook_post now req s)") simp_all
  show "find_instance (metadata v) s = None \<longrightarrow>
         process_message now v msg s = (None, s) \<and> process_status now v st s = (None, s)"
    by (simp add: dropped_items)
  show "for_each f xs s = (None, s1) \<longrightarrow> for_each f (xs @ ys) s = for_each f ys s1"
    by (simp add: for_each_append)
  show "for_each f xs s = (None, s1) \<and> f x s1 = (Some e, s2) \<longrightarrow>
         for_each f (xs @ x # ys) s = (Some e, s2)"
    by (simp add: for_each_abort)
qed

subsection \<open>A small store for the examples\<close>

definition hook0 :: hook_state where
  "hook0 = \<lparr> h_instances = [(''i1'', demo_instance)], h_contacts = [], h_messages = [],
     h_next_id = 0, emitted = [], downloads = [] \<rparr>"

definition demo_md :: wa_metadata where
  "demo_md = \<lparr> phone_number_id = Some ''555'', display_phone_number = Some ''15550001'' \<rparr>"

definition demo_msg :: wa_message where
  "demo_msg = \<lparr> wm_from = ''5511999'', wm_id = ''wamid.A'', wm_type = ''text'',
     wm_timestamp = 1700000000, wm_text = Some ''hi'', wm_media = None \<rparr>"

definition demo_value :: "wa_metadata \<Rightarrow> wa_value" where
  "demo_value md = \<lparr> metadata = Some md, wv_messages = Some [demo_msg], wv_statuses = None,
     wv_contacts = None \<rparr>"

definition demo_payload :: "wa_change list \<Rightarrow> request_body" where
  "demo_payload chs =
     Json (Some \<lparr> object = Some ''whatsapp_business_account'',
                  entry = Some [\<lparr> changes = Some chs \<rparr>] \<rparr>)"

definition good_change :: wa_change where
  "good_change = \<lparr> change_value = Some (demo_value demo_md) \<rparr>"

definition unknown_change :: wa_change where
  "unknown_change = \<lparr> change_value = Some (demo_value (demo_md\<lparr>phone_number_id := Some ''999''\<rparr>)) \<rparr>"

definition no_value_change :: wa_change where
  "no_value_change = \<lparr> change_value = None \<rparr>"


definition demo_contact :: contact where
  "demo_contact = \<lparr> ct_id = 0, ct_instanceId = ''i1'', waId = ''5511999'', pushName = Some ''5511999'' \<rparr>"

definition demo_row :: message where
  "demo_row = \<lparr> m_id = 1, m_instanceId = ''i1'', m_campaignId = None, contactId = Some 0,
     waMessageId = Some ''wamid.A'', m_from = ''5511999'', m_to = ''15550001'',
     m_direction = INBOUND, body = Some ''hi'', mediaUrl = Some [], mediaType = Some ''text'',
     m_status = DELIVERED, errorMsg = None, sentAt = Some 1700000000000, deliveredAt = None,
     readAt = None, createdAt = 1 \<rparr>"

definition hook1 :: hook_state where
  "hook1 = \<lparr> h_instances = [(''i1'', demo_instance)], h_contacts = [demo_contact],
     h_messages = [demo_row], h_next_id = 2,
     emitted = [(''i1'', ''message'', MessageData demo_msg demo_md)], downloads = [] \<rparr>"

lemma demo_find_instance:
  "h_instances s = [(''i1'', demo_instance)] \<Longrightarrow>
     find_instance (metadata (demo_value demo_md)) s = Some (''i1'', demo_instance)"
  by (simp add: find_instance_def demo_value_def demo_md_def truthy_def demo_instance_def)

lemma demo_first_message:
  "process_message 1 (demo_value demo_md) demo_msg hook0 = (None, hook1)"
proof -
  have f: "find_instance (metadata (demo_value demo_md)) hook0 = Some (''i1'', demo_instance)"
    by (rule demo_find_instance) (simp add: hook0_def)
  have p: "push_name_of (demo_value demo_md) (wm_from demo_msg) = None"
    by (simp add: push_name_of_def demo_value_def)
  have u: "upsert_contact ''i1'' (wm_from demo_msg) None hook0
             = (0, hook0\<lparr>h_contacts := [demo_contact], h_next_id := 1\<rparr>)"
    by (simp add: upsert_contact_def hook0_def demo_contact_def demo_msg_def truthy_def)
  have r: "process_message 1 (demo_value demo_md) demo_msg hook0
             = (None, hook0\<lparr>h_contacts := [demo_contact], h_next_id := 2,
                  h_messages := [demo_row],
                  emitted := [(''i1'', ''message'', MessageData demo_msg demo_md)]\<rparr>)"
    apply (simp add: process_message_def f p u Let_def)
    apply (simp add: hook0_def demo_row_def demo_msg_def demo_value_def
                  demo_md_def body_text_def media_ref_def media_types_def truthy_def)
    done
  show ?thesis unfolding r by (simp add: hook0_def hook1_def)
qed

lemma demo_second_message:
  "process_message 2 (demo_value demo_md) demo_msg hook1
     = (None, hook1\<lparr>emitted := emitted hook1 @ [(''i1'', ''message'', MessageData demo_msg demo_md)]\<rparr>)"
proof -
  have f: "find_instance (metadata (demo_value demo_md)) hook1 = Some (''i1'', demo_instance)"
    by (rule demo_find_instance) (simp add: hook1_def)
  have p: "push_name_of (demo_value demo_md) (wm_from demo_msg) = None"
    by (simp add: push_name_of_def demo_value_def)
  have u: "upsert_contact ''i1'' (wm_from demo_msg) None hook1 = (0, hook1)"
    by (simp add: upsert_contact_def hook1_def demo_contact_def demo_msg_def truthy_def)
  have e: "List.find (\<lambda>m. waMessageId m = Some (wm_id demo_msg)) (h_messages hook1) = Some demo_row"
    by (simp add: hook1_def demo_row_def demo_msg_def)
  have m: "the (metadata (demo_value demo_md)) = demo_md" by (simp add: demo_value_def)
  show ?thesis
    by (simp add: process_message_def f p u e m Let_def)
qed

lemma demo_post:
  "webhook_post now (demo_payload [good_change]) s
     = (case process_message now (demo_value demo_md) demo_msg s of
          (Some e, s') \<Rightarrow> (InternalServerError, s') | (None, s') \<Rightarrow> (StatusOk, s'))"
  by (simp add: webhook_post_def demo_payload_def process_entry_def process_change_def
                good_change_def demo_value_def split: prod.splits option.splits)

theorem duplicate_ingest_counterexample:
  "webhook_post 1 (demo_payload [good_change]) hook0 = (StatusOk, hook1)
   \<and> rows_with ''wamid.A'' hook1 = 1
   \<and> message_events hook1 = 1
   \<and> fst (webhook_post 2 (demo_payload [good_change]) hook1) = StatusOk
   \<and> rows_with ''wamid.A'' (snd (webhook_post 2 (demo_payload [good_change]) hook1)) = 1
   \<and> message_events (snd (webhook_post 2 (demo_payload [good_change]) hook1)) = 2"
proof -
  have a: "webhook_post 1 (demo_payload [good_change]) hook0 = (StatusOk, hook1)"
    unfolding demo_post demo_first_message by simp
  have b: "webhook_post 2 (demo_payload [good_change]) hook1
             = (StatusOk, hook1\<lparr>emitted := emitted hook1 @
                  [(''i1'', ''message'', MessageData demo_msg demo_md)]\<rparr>)"
    unfolding demo_post demo_second_message by simp
  show ?thesis
    unfolding a b
    by (simp add: rows_with_def message_events_def hook1_def demo_row_def)
qed

theorem ingest_error_counterexample:
  "webhook_post 1 (demo_payload [no_value_change, good_change]) hook0 = (InternalServerError, hook0)"
  by (simp add: webhook_post_def demo_payload_def process_entry_def process_change_def no_value_change_def)

lemma process_message_no_throw: "\<exists>s'. process_message now v msg s = (None, s')"
  by (simp add: process_message_def Let_def split: option.splits prod.splits)

lemma good_change_ok: "\<exists>s'. process_change now good_change s = (None, s')"
proof -
  obtain s' where p: "process_message now (demo_value demo_md) demo_msg s = (None, s')"
    using process_message_no_throw by blast
  have v: "change_value good_change = Some (demo_value demo_md)"
          "wv_messages (demo_value demo_md) = Some [demo_msg]"
          "wv_statuses (demo_value demo_md) = None"
    by (simp_all add: good_change_def demo_value_def)
  show ?thesis by (simp add: process_change_def v p)
qed

lemma unknown_find:
  "find_instance (metadata (demo_value (demo_md\<lparr>phone_number_id := Some ''999''\<rparr>))) hook0 = None"
  by (simp add: find_instance_def demo_value_def demo_md_def truthy_def hook0_def demo_instance_def)

lemma unknown_change_dropped: "process_change now unknown_change hook0 = (None, hook0)"
proof -
  have v: "change_value unknown_change = Some (demo_value (demo_md\<lparr>phone_number_id := Some ''999''\<rparr>))"
          "wv_messages (demo_value (demo_md\<lparr>phone_number_id := Some ''999''\<rparr>)) = Some [demo_msg]"
          "wv_statuses (demo_value (demo_md\<lparr>phone_number_id := Some ''999''\<rparr>)) = None"
    by (simp_all add: unknown_change_def demo_value_def)
  have p: "process_message now (demo_value (demo_md\<lparr>phone_number_id := Some ''999''\<rparr>)) demo_msg hook0
             = (None, hook0)"
    using unknown_find by (rule process_message_unknown)
  show ?thesis by (simp add: process_change_def v p)
qed

lemma no_value_throws: "process_change now no_value_change s = (Some type_error, s)"
  by (simp add: process_change_def no_value_change_def)

lemma demo_entries:
  "object \<lparr> object = Some ''whatsapp_business_account'', entry = Some [\<lparr> changes = Some chs \<rparr>] \<rparr>
     = Some ''whatsapp_business_account''"
  "fst (for_each (process_entry now)
          (entries_of \<lparr> object = Some ''whatsapp_business_account'',
                        entry = Some [\<lparr> changes = Some chs \<rparr>] \<rparr>) s)
     = fst (for_each (process_change now) chs s)"
  by (simp_all add: entries_of_def process_entry_def split: prod.splits option.splits)

theorem ingest_acknowledges_unless_exception_witness:
  "fst (webhook_post 5 (demo_payload [unknown_change, good_change]) hook0) = StatusOk
   \<and> find_instance (metadata (demo_value (demo_md\<lparr>phone_number_id := Some ''999''\<rparr>))) hook0 = None
   \<and> process_message 5 (demo_value (demo_md\<lparr>phone_number_id := Some ''999''\<rparr>)) demo_msg hook0
       = (None, hook0)
   \<and> for_each (process_change 5) [] hook0 = (None, hook0)
   \<and> process_change 5 no_value_change hook0 = (Some type_error, hook0)
   \<and> for_each (process_change 5) ([] @ no_value_change # [good_change]) hook0
       = (Some type_error, hook0)
   \<and> fst (webhook_post 5 (demo_payload [no_value_change, good_change]) hook0) = InternalServerError"
proof -
  obtain s' where g: "process_change 5 good_change hook0 = (None, s')"
    using good_change_ok by blast
  have ok: "fst (for_each (process_change 5) [unknown_change, good_change] hook0) = None"
    by (simp add: unknown_change_dropped g)
  have bad: "fst (for_each (process_change 5) [no_value_change, good_change] hook0) \<noteq> None"
    by (simp add: no_value_throws)
  have e: "for_each (process_change 5) [] hook0 = (None, hook0)" by simp
  note t1 = ingest_acknowledges_unless_exception
         [of 5 "demo_payload [unknown_change, good_change]" hook0
             "demo_value (demo_md\<lparr>phone_number_id := Some ''999''\<rparr>)" demo_msg
             "\<lparr>ws_id = None, ws_status = None\<rparr>"
             "process_change 5" "[]" hook0 "[good_change]" no_value_change type_error hook0]
  note t2 = ingest_acknowledges_unless_exception
         [of 5 "demo_payload [no_value_change, good_change]" hook0
             "demo_value (demo_md\<lparr>phone_number_id := Some ''999''\<rparr>)" demo_msg
             "\<lparr>ws_id = None, ws_status = None\<rparr>"
             "process_change 5" "[]" hook0 "[good_change]" no_value_change type_error hook0]
  have c1: "fst (webhook_post 5 (demo_payload [unknown_change, good_change]) hook0) = StatusOk"
    using t1 ok by (simp add: demo_payload_def demo_entries)
  have c7: "fst (webhook_post 5 (demo_payload [no_value_change, good_change]) hook0)
              = InternalServerError"
    using t2 bad by (simp add: demo_payload_def demo_entries)
  show ?thesis
    using c1 c7 t1 unknown_find e no_value_throws[of 5 hook0] by simp
qed

theorem duplicate_message_row_not_event_witness:
  "find_instance (metadata (demo_value demo_md)) hook0 = Some (''i1'', demo_instance)
   \<and> rows_with (wm_id demo_msg) hook0 = 0
   \<and> (\<exists>s1 s2. process_message 1 (demo_value demo_md) demo_msg hook0 = (None, s1)
         \<and> process_message 2 (demo_value demo_md) demo_msg s1 = (None, s2)
         \<and> rows_with (wm_id demo_msg) s1 = 1
         \<and> h_messages s2 = h_messages s1
         \<and> message_events s1 = 1 \<and> message_events s2 = 2)
   \<and> find_instance (metadata (demo_value (demo_md\<lparr>phone_number_id := Some ''999''\<rparr>))) hook0 = None
   \<and> process_message 1 (demo_value (demo_md\<lparr>phone_number_id := Some ''999''\<rparr>)) demo_msg hook0
       = (None, hook0)"
proof -
  have f: "find_instance (metadata (demo_value demo_md)) hook0 = Some (''i1'', demo_instance)"
    by (rule demo_find_instance) (simp add: hook0_def)
  have r: "rows_with (wm_id demo_msg) hook0 = 0" by (simp add: rows_with_def hook0_def)
  have m: "message_events hook0 = 0" by (simp add: message_events_def hook0_def)
  from duplicate_message_row_not_event
         [of "demo_value demo_md" hook0 1 demo_msg "''i1''" demo_instance 2] f r m
  have a: "\<exists>s1 s2. process_message 1 (demo_value demo_md) demo_msg hook0 = (None, s1)
         \<and> process_message 2 (demo_value demo_md) demo_msg s1 = (None, s2)
         \<and> rows_with (wm_id demo_msg) s1 = 1
         \<and> h_messages s2 = h_messages s1
         \<and> message_events s1 = 1 \<and> message_events s2 = 2"
    by auto
  from duplicate_message_row_not_event
         [of "demo_value (demo_md\<lparr>phone_number_id := Some ''999''\<rparr>)" hook0 1 demo_msg
             "''i1''" demo_instance 2] unknown_find
  have b: "process_message 1 (demo_value (demo_md\<lparr>phone_number_id := Some ''999''\<rparr>)) demo_msg hook0
       = (None, hook0)"
    by simp
  show ?thesis using f r a b unknown_find by simp
qed

section \<open>Reachable states of the campaign system\<close>

definition active :: "pc \<Rightarrow> bool" where
  "active p = (case p of Done r \<Rightarrow> False | _ \<Rightarrow> True)"

fun held :: "pc \<Rightarrow> message option" where
  "held (Send c m) = Some m"
| "held (MsgSent c m) = Some m"
| "held (MsgFailed c m e) = Some m"
| "held p = None"

fun owing :: "pc \<Rightarrow> bool" where
  "owing (IncSent c m) = True"
| "owing (IncFailed c) = True"
| "owing p = False"

fun post_send :: "pc \<Rightarrow> nat option" where
  "post_send (MsgSent c m) = Some (m_id m)"
| "post_send (MsgFailed c m e) = Some (m_id m)"
| "post_send p = None"

definition cnt :: "('a \<Rightarrow> bool) \<Rightarrow> 'a list \<Rightarrow> nat" where
  "cnt P ls = length (filter P ls)"

definition is_active :: "nat \<Rightarrow> nat \<times> pc \<Rightarrow> bool" where
  "is_active cid x = (fst x = cid \<and> active (snd x))"

definition is_owing :: "nat \<Rightarrow> nat \<times> pc \<Rightarrow> bool" where
  "is_owing cid x = (fst x = cid \<and> owing (snd x))"

definition pending :: "nat \<Rightarrow> message list \<Rightarrow> nat" where
  "pending cid ms = length (filter (is_pending_of cid) ms)"

definition pending_row :: "message list \<Rightarrow> nat \<Rightarrow> nat \<Rightarrow> bool" where
  "pending_row ms cid mid = (\<exists>x \<in> set ms. m_id x = mid \<and> is_pending_of cid x)"

subsection \<open>Counting in lists\<close>

lemma cnt_update:
  "i < length ls \<Longrightarrow>
     cnt P (ls[i := y]) + (if P (ls ! i) then 1 else 0) = cnt P ls + (if P y then 1 else 0)"
proof (induction ls arbitrary: i)
  case Nil
  then show ?case by simp
next
  case (Cons a ls)
  show ?case
  proof (cases i)
    case 0
    then show ?thesis by (simp add: cnt_def)
  next
    case (Suc k)
    with Cons.prems have "k < length ls" by simp
    from Cons.IH[OF this] Suc show ?thesis by (simp add: cnt_def)
  qed
qed

lemma cnt_update_same:
  "i < length ls \<Longrightarrow> P (ls ! i) = P y \<Longrightarrow> cnt P (ls[i := y]) = cnt P ls"
  using cnt_update[of i ls P y] by (simp split: if_splits)

lemma cnt_append: "cnt P (ls @ [y]) = cnt P ls + (if P y then 1 else 0)"
  by (simp add: cnt_def)

lemma cnt_pos: "i < length ls \<Longrightarrow> P (ls ! i) \<Longrightarrow> 0 < cnt P ls"
proof -
  assume "i < length ls" and "P (ls ! i)"
  then have "ls ! i \<in> set (filter P ls)" by simp
  then have "filter P ls \<noteq> []" by (metis empty_iff list.set(1))
  then show ?thesis by (simp add: cnt_def)
qed

lemma cnt_zero: "cnt P ls = 0 \<Longrightarrow> i < length ls \<Longrightarrow> \<not> P (ls ! i)"
  using cnt_pos[of i ls P] by auto

lemma cnt_unique:
  "cnt P ls \<le> 1 \<Longrightarrow> i < length ls \<Longrightarrow> j < length ls \<Longrightarrow> P (ls ! i) \<Longrightarrow> P (ls ! j) \<Longrightarrow> i = j"
proof (induction ls arbitrary: i j)
  case Nil
  then show ?case by simp
next
  case (Cons a ls)
  show ?case
  proof (cases i)
    case i0: 0
    show ?thesis
    proof (cases j)
      case 0
      with i0 show ?thesis by simp
    next
      case (Suc k)
      with Cons.prems have "k < length ls" "P (ls ! k)" by simp_all
      then have "0 < cnt P ls" by (rule cnt_pos)
      moreover have "P a" using Cons.prems i0 by simp
      ultimately have "2 \<le> cnt P (a # ls)" by (simp add: cnt_def Suc_le_eq)
      with Cons.prems(1) show ?thesis by simp
    qed
  next
    case si: (Suc k)
    show ?thesis
    proof (cases j)
      case 0
      from si Cons.prems have "k < length ls" "P (ls ! k)" by simp_all
      then have "0 < cnt P ls" by (rule cnt_pos)
      moreover have "P a" using Cons.prems 0 by simp
      ultimately have "2 \<le> cnt P (a # ls)" by (simp add: cnt_def Suc_le_eq)
      with Cons.prems(1) show ?thesis by simp
    next
      case (Suc l)
      have "cnt P ls \<le> 1" using Cons.prems(1) by (simp add: cnt_def split: if_splits)
      moreover have "k < length ls" "l < length ls" "P (ls ! k)" "P (ls ! l)"
        using Cons.prems si Suc by simp_all
      ultimately have "k = l" by (rule Cons.IH)
      with si Suc show ?thesis by simp
    qed
  qed
qed

lemma cnt_all_false: "(\<And>i. i < length ls \<Longrightarrow> \<not> P (ls ! i)) \<Longrightarrow> cnt P ls = 0"
  by (auto simp: cnt_def filter_empty_conv in_set_conv_nth)

subsection \<open>Message updates\<close>

definition finishes :: "(message \<Rightarrow> message) \<Rightarrow> bool" where
  "finishes f = (\<forall>x. m_id (f x) = m_id x \<and> m_campaignId (f x) = m_campaignId x
                      \<and> m_status (f x) \<noteq> PENDING)"

lemma finishes_sent: "finishes (\<lambda>x. x\<lparr>m_status := SENT, sentAt := t\<rparr>)"
  by (simp add: finishes_def)

lemma finishes_failed: "finishes (\<lambda>x. x\<lparr>m_status := FAILED, errorMsg := t\<rparr>)"
  by (simp add: finishes_def)

lemma upd_msg_ids: "finishes f \<Longrightarrow> map m_id (upd_msg mid f ms) = map m_id ms"
  by (induction ms) (simp_all add: upd_msg_def finishes_def)

lemma upd_msg_absent: "mid \<notin> m_id ` set ms \<Longrightarrow> upd_msg mid f ms = ms"
  by (induction ms) (simp_all add: upd_msg_def)

lemma upd_msg_set:
  "y \<in> set (upd_msg mid f ms) \<Longrightarrow> y \<in> set ms \<and> m_id y \<noteq> mid \<or> (\<exists>x \<in> set ms. m_id x = mid \<and> y = f x)"
  by (auto simp: upd_msg_def)

lemma upd_msg_keeps: "x \<in> set ms \<Longrightarrow> m_id x \<noteq> mid \<Longrightarrow> x \<in> set (upd_msg mid f ms)"
  by (auto simp: upd_msg_def)

lemma pending_upd_le: "finishes f \<Longrightarrow> pending cid (upd_msg mid f ms) \<le> pending cid ms"
  by (induction ms) (auto simp: pending_def upd_msg_def finishes_def is_pending_of_def)

lemma pending_upd_other:
  "finishes f \<Longrightarrow> \<forall>x \<in> set ms. m_id x = mid \<longrightarrow> \<not> is_pending_of cid x
     \<Longrightarrow> pending cid (upd_msg mid f ms) = pending cid ms"
  by (induction ms) (auto simp: pending_def upd_msg_def finishes_def is_pending_of_def)

lemma pending_upd_same:
  "finishes f \<Longrightarrow> distinct (map m_id ms) \<Longrightarrow> x \<in> set ms \<Longrightarrow> m_id x = mid
     \<Longrightarrow> is_pending_of cid x \<Longrightarrow> Suc (pending cid (upd_msg mid f ms)) = pending cid ms"
proof (induction ms)
  case Nil
  then show ?case by simp
next
  case (Cons a ms)
  show ?case
  proof (cases "m_id a = mid")
    case True
    have ax: "a = x"
    proof (rule ccontr)
      assume "a \<noteq> x"
      with Cons.prems have "x \<in> set ms" by simp
      then have "m_id x \<in> set (map m_id ms)" by simp
      with Cons.prems True show False by simp
    qed
    have "mid \<notin> m_id ` set ms" using Cons.prems True by auto
    then have r: "upd_msg mid f ms = ms" by (rule upd_msg_absent)
    have "upd_msg mid f (a # ms) = f a # upd_msg mid f ms" using True by (simp add: upd_msg_def)
    with r ax Cons.prems show ?thesis
      by (simp add: pending_def finishes_def is_pending_of_def)
  next
    case False
    with Cons.prems have "x \<in> set ms" by auto
    with Cons.IH Cons.prems have "Suc (pending cid (upd_msg mid f ms)) = pending cid ms" by simp
    with False show ?thesis by (simp add: pending_def upd_msg_def)
  qed
qed

lemma pending_zero_iff: "pending cid ms = 0 \<longleftrightarrow> (\<forall>x \<in> set ms. \<not> is_pending_of cid x)"
  by (simp add: pending_def filter_empty_conv)

lemma pending_row_unique:
  "distinct (map m_id ms) \<Longrightarrow> pending_row ms cid mid \<Longrightarrow> pending_row ms cid' mid \<Longrightarrow> cid = cid'"
proof -
  assume d: "distinct (map m_id ms)" and a: "pending_row ms cid mid" and b: "pending_row ms cid' mid"
  from a obtain x where x: "x \<in> set ms" "m_id x = mid" "is_pending_of cid x"
    by (auto simp: pending_row_def)
  from b obtain y where y: "y \<in> set ms" "m_id y = mid" "is_pending_of cid' y"
    by (auto simp: pending_row_def)
  from d x(1,2) y(1,2) have "x = y" by (metis distinct_map inj_onD)
  with x(3) y(3) show ?thesis by (simp add: is_pending_of_def)
qed

lemma pending_row_rows:
  "distinct (map m_id ms) \<Longrightarrow> pending_row ms cid mid \<Longrightarrow> y \<in> set ms \<Longrightarrow> m_id y = mid
     \<Longrightarrow> is_pending_of cid y"
proof -
  assume d: "distinct (map m_id ms)" and a: "pending_row ms cid mid" and y: "y \<in> set ms" "m_id y = mid"
  from a obtain x where x: "x \<in> set ms" "m_id x = mid" "is_pending_of cid x"
    by (auto simp: pending_row_def)
  from d x(1,2) y have "x = y" by (metis distinct_map inj_onD)
  with x(3) show ?thesis by simp
qed

subsection \<open>What one step changes\<close>

lemma loop_step_frame:
  "loop_step now reply tie cid p w = (p', w') \<Longrightarrow>
     loops w' = loops w \<and> requests w' = requests w \<and> instances w' = instances w
     \<and> next_id w' = next_id w \<and> dom (campaigns w') = dom (campaigns w)
     \<and> runningProcessors w' =
         (if \<exists>r. p = Finally r then runningProcessors w - {cid} else runningProcessors w)
     \<and> (active p' \<longleftrightarrow> active p \<and> \<not> (\<exists>r. p = Finally r))"
  by (induction now reply tie cid p w rule: loop_step.induct)
     (auto simp: active_def update_campaign_def update_message_def Let_def
           split: option.splits if_splits prod.splits sum.splits)

lemma processCampaign_frame:
  "campaigns (processCampaign cid w) = campaigns w \<and> messages (processCampaign cid w) = messages w
   \<and> next_id (processCampaign cid w) = next_id w \<and> requests (processCampaign cid w) = requests w
   \<and> sent_log (processCampaign cid w) = sent_log w \<and> instances (processCampaign cid w) = instances w"
  by (simp add: processCampaign_def)

lemma req_step_frame:
  "req_step now user cid p w = (p', w') \<Longrightarrow>
     messages w' = messages w \<and> next_id w' = next_id w \<and> dom (campaigns w') = dom (campaigns w)
     \<and> requests w' = requests w \<and> sent_log w' = sent_log w \<and> instances w' = instances w
     \<and> (\<forall>c. campaigns w cid' = Some c \<longrightarrow>
           (\<exists>c'. campaigns w' cid' = Some c' \<and> totalMessages c' = totalMessages c
              \<and> sentMessages c' = sentMessages c \<and> failedMessages c' = failedMessages c))"
  by (induction now user cid p w rule: req_step.induct)
     (auto simp: update_campaign_def processCampaign_def
           split: option.splits if_splits prod.splits sum.splits)

definition guard_ok :: "world \<Rightarrow> bool" where
  "guard_ok w = (\<forall>cid. cnt (is_active cid) (loops w) = (if cid \<in> runningProcessors w then 1 else 0))"

definition ids_ok :: "world \<Rightarrow> bool" where
  "ids_ok w =
     (distinct (map m_id (messages w))
      \<and> (\<forall>m \<in> set (messages w). m_id m < next_id w
            \<and> (\<forall>c. m_campaignId m = Some c \<longrightarrow> c < next_id w))
      \<and> (\<forall>cid \<in> dom (campaigns w). cid < next_id w))"

definition task_ok :: "world \<Rightarrow> nat \<times> pc \<Rightarrow> bool" where
  "task_ok w t =
     (fst t \<in> dom (campaigns w)
      \<and> (\<forall>m. held (snd t) = Some m \<longrightarrow> pending_row (messages w) (fst t) (m_id m))
      \<and> (snd t = WrCompleted \<longrightarrow> pending (fst t) (messages w) = 0))"

definition tasks_ok :: "world \<Rightarrow> bool" where
  "tasks_ok w = (\<forall>i < length (loops w). task_ok w (loops w ! i))"

definition req_ok :: "world \<Rightarrow> request \<Rightarrow> bool" where
  "req_ok w r =
     ((r_pc r = StartInvoke \<or> r_pc r = CtlInvoke \<longrightarrow> r_campaign r \<in> dom (campaigns w))
      \<and> (\<forall>a. r_pc r \<noteq> CtlWrite a COMPLETED))"

definition reqs_ok :: "world \<Rightarrow> bool" where
  "reqs_ok w = (\<forall>j < length (requests w). req_ok w (requests w ! j))"

definition count_ok :: "world \<Rightarrow> bool" where
  "count_ok w =
     (\<forall>cid c. campaigns w cid = Some c \<longrightarrow>
        sentMessages c + failedMessages c + pending cid (messages w)
          + cnt (is_owing cid) (loops w) = totalMessages c)"

definition busy :: "pc \<Rightarrow> bool" where
  "busy p = (held p \<noteq> None \<or> owing p)"

definition completed_ok :: "world \<Rightarrow> bool" where
  "completed_ok w =
     (\<forall>cid c. campaigns w cid = Some c \<and> status c = COMPLETED \<longrightarrow>
        pending cid (messages w) = 0
        \<and> (\<forall>i < length (loops w). fst (loops w ! i) = cid \<longrightarrow> \<not> busy (snd (loops w ! i))))"

definition log_ok :: "world \<Rightarrow> bool" where
  "log_ok w =
     (distinct (sent_log w)
      \<and> (\<forall>mid \<in> set (sent_log w). mid < next_id w
            \<and> ((\<forall>x \<in> set (messages w). m_id x = mid \<longrightarrow> m_status x \<noteq> PENDING)
                \<or> (\<exists>i < length (loops w). post_send (snd (loops w ! i)) = Some mid))))"

definition invariant :: "world \<Rightarrow> bool" where
  "invariant w = (guard_ok w \<and> ids_ok w \<and> tasks_ok w \<and> reqs_ok w \<and> count_ok w
            \<and> completed_ok w \<and> log_ok w)"

lemma inv_init: "invariant (init insts)"
  by (simp add: invariant_def init_def guard_ok_def ids_ok_def tasks_ok_def reqs_ok_def count_ok_def
                completed_ok_def log_ok_def cnt_def)

subsection \<open>A step of a run: the guard\<close>

text \<open>The world after task \<open>i\<close> has taken its step.\<close>

definition after_loop :: "nat \<Rightarrow> nat \<Rightarrow> pc \<Rightarrow> world \<Rightarrow> world" where
  "after_loop i cid p' w' = w'\<lparr>loops := (loops w')[i := (cid, p')]\<rparr>"

lemma apply_LoopStep:
  "i < length (loops w) \<Longrightarrow> loops w ! i = (cid, p) \<Longrightarrow> loop_step now reply tie cid p w = (p', w')
     \<Longrightarrow> apply_event (LoopStep i now reply tie) w = after_loop i cid p' w'"
  by (simp add: apply_event_def after_loop_def)

lemma active_task_running:
  "guard_ok w \<Longrightarrow> i < length (loops w) \<Longrightarrow> loops w ! i = (cid, p) \<Longrightarrow> active p
     \<Longrightarrow> cid \<in> runningProcessors w \<and> cnt (is_active cid) (loops w) = 1"
proof -
  assume g: "guard_ok w" and i: "i < length (loops w)" and t: "loops w ! i = (cid, p)" and a: "active p"
  have "is_active cid (loops w ! i)" using t a by (simp add: is_active_def)
  with i have "0 < cnt (is_active cid) (loops w)" by (rule cnt_pos)
  with g show ?thesis by (auto simp: guard_ok_def split: if_splits)
qed

lemma unique_task:
  "guard_ok w \<Longrightarrow> i < length (loops w) \<Longrightarrow> j < length (loops w)
     \<Longrightarrow> fst (loops w ! i) = fst (loops w ! j) \<Longrightarrow> active (snd (loops w ! i))
     \<Longrightarrow> active (snd (loops w ! j)) \<Longrightarrow> i = j"
proof -
  assume g: "guard_ok w" and i: "i < length (loops w)" and j: "j < length (loops w)"
     and c: "fst (loops w ! i) = fst (loops w ! j)" and a: "active (snd (loops w ! i))"
     and b: "active (snd (loops w ! j))"
  let ?cid = "fst (loops w ! i)"
  have "cnt (is_active ?cid) (loops w) \<le> 1" using g by (simp add: guard_ok_def)
  moreover have "is_active ?cid (loops w ! i)" using a by (simp add: is_active_def)
  moreover have "is_active ?cid (loops w ! j)" using b c by (simp add: is_active_def)
  ultimately show "i = j" using i j by (metis cnt_unique)
qed

lemma guard_loop:
  assumes g: "guard_ok w" and i: "i < length (loops w)" and t: "loops w ! i = (cid, p)"
      and s: "loop_step now reply tie cid p w = (p', w')"
  shows "guard_ok (after_loop i cid p' w')"
proof -
  note f = loop_step_frame[OF s]
  have l: "loops (after_loop i cid p' w') = (loops w)[i := (cid, p')]"
    using f by (simp add: after_loop_def)
  have r: "runningProcessors (after_loop i cid p' w') =
             (if \<exists>r. p = Finally r then runningProcessors w - {cid} else runningProcessors w)"
    using f by (simp add: after_loop_def)
  show ?thesis
  proof (cases "\<exists>r. p = Finally r")
    case True
    then have ap: "active p" and nap: "\<not> active p'" using f by (auto simp: active_def)
    have run: "cid \<in> runningProcessors w" "cnt (is_active cid) (loops w) = 1"
      using active_task_running[OF g i t ap] by simp_all
    show ?thesis
      unfolding guard_ok_def l r
    proof
      fix c
      have u: "cnt (is_active c) ((loops w)[i := (cid, p')])
                 + (if is_active c (loops w ! i) then 1 else 0)
               = cnt (is_active c) (loops w) + (if is_active c (cid, p') then 1 else 0)"
        using i by (rule cnt_update)
      show "cnt (is_active c) ((loops w)[i := (cid, p')]) =
              (if c \<in> (if \<exists>r. p = Finally r then runningProcessors w - {cid} else runningProcessors w)
               then 1 else 0)"
      proof (cases "c = cid")
        case True
        with u t ap nap run show ?thesis using \<open>\<exists>r. p = Finally r\<close> by (simp add: is_active_def)
      next
        case False
        with u t g show ?thesis using \<open>\<exists>r. p = Finally r\<close>
          by (simp add: is_active_def guard_ok_def)
      qed
    qed
  next
    case False
    then have same: "active p' = active p" using f by simp
    show ?thesis
      unfolding guard_ok_def l r
    proof
      fix c
      have "is_active c (loops w ! i) = is_active c (cid, p')"
        using t same by (simp add: is_active_def)
      with i have "cnt (is_active c) ((loops w)[i := (cid, p')]) = cnt (is_active c) (loops w)"
        by (rule cnt_update_same)
      with g False show "cnt (is_active c) ((loops w)[i := (cid, p')]) =
              (if c \<in> (if \<exists>r. p = Finally r then runningProcessors w - {cid} else runningProcessors w)
               then 1 else 0)"
        by (simp add: guard_ok_def)
    qed
  qed
qed

lemma guard_processCampaign: "guard_ok w \<Longrightarrow> guard_ok (processCampaign cid w)"
proof -
  assume g: "guard_ok w"
  show ?thesis
  proof (cases "cid \<in> runningProcessors w")
    case True
    with g show ?thesis by (simp add: processCampaign_def)
  next
    case False
    with g show ?thesis
      by (auto simp: processCampaign_def guard_ok_def cnt_append is_active_def active_def)
  qed
qed

lemma req_step_guard:
  "req_step now user cid p w = (p', w') \<Longrightarrow> guard_ok w \<Longrightarrow> guard_ok w'"
proof (induction now user cid p w rule: req_step.induct)
  case (4 now user cid w)
  then show ?case using guard_processCampaign by auto
next
  case (7 now user cid w)
  then show ?case using guard_processCampaign by auto
qed (auto simp: guard_ok_def update_campaign_def split: option.splits sum.splits if_splits)

subsection \<open>A step of a run in a state where its task is well placed\<close>

text \<open>The moves a run can make, with what each does to the state.\<close>

inductive move :: "nat \<Rightarrow> nat \<Rightarrow> pc \<Rightarrow> world \<Rightarrow> pc \<Rightarrow> world \<Rightarrow> bool" where
  quiet: "held p = None \<Longrightarrow> held p' = None \<Longrightarrow> \<not> owing p \<Longrightarrow> \<not> owing p'
          \<Longrightarrow> p' \<noteq> WrCompleted
          \<Longrightarrow> move now cid p w p' (w\<lparr>runningProcessors := R\<rparr>)"
| pick: "findFirst_pending tie cid (messages w) = Some m \<Longrightarrow> move now cid (Find c) w (Send c m) w"
| drained: "findFirst_pending tie cid (messages w) = None \<Longrightarrow> move now cid (Find c) w WrCompleted w"
| set_status: "campaigns w cid = Some c0 \<Longrightarrow> p = WrPaused \<or> p = WrCompleted
          \<Longrightarrow> (p = WrPaused \<longrightarrow> st = PAUSED) \<Longrightarrow> (st = COMPLETED \<longrightarrow> p = WrCompleted)
          \<Longrightarrow> move now cid p w (Finally None)
                (w\<lparr>campaigns := (campaigns w)(cid \<mapsto> c0\<lparr>status := st, completedAt := t\<rparr>)\<rparr>)"
| sent: "held p' = Some m \<Longrightarrow> post_send p' = Some (m_id m) \<Longrightarrow> \<not> owing p'
          \<Longrightarrow> lg = sent_log w \<or> lg = sent_log w @ [m_id m]
          \<Longrightarrow> move now cid (Send c m) w p' (w\<lparr>sessions := ss, sent_log := lg\<rparr>)"
| finish: "held p = Some m \<Longrightarrow> post_send p = Some (m_id m) \<Longrightarrow> finishes f
          \<Longrightarrow> owing p' \<Longrightarrow> held p' = None \<Longrightarrow> post_send p' = None
          \<Longrightarrow> move now cid p w p' (w\<lparr>messages := upd_msg (m_id m) f (messages w)\<rparr>)"
| tally: "owing p \<Longrightarrow> held p = None \<Longrightarrow> campaigns w cid = Some c0
          \<Longrightarrow> sentMessages c1 + failedMessages c1 = sentMessages c0 + failedMessages c0 + 1
          \<Longrightarrow> sentMessages c0 \<le> sentMessages c1 \<Longrightarrow> failedMessages c0 \<le> failedMessages c1
          \<Longrightarrow> totalMessages c1 = totalMessages c0 \<Longrightarrow> status c1 = status c0
          \<Longrightarrow> move now cid p w (Sleep c) (w\<lparr>campaigns := (campaigns w)(cid \<mapsto> c1)\<rparr>)"

lemma world_running_id [simp]: "w\<lparr>runningProcessors := runningProcessors w\<rparr> = w"
  by simp

lemma quiet_same:
  "held p = None \<Longrightarrow> held p' = None \<Longrightarrow> \<not> owing p \<Longrightarrow> \<not> owing p' \<Longrightarrow> p' \<noteq> WrCompleted
     \<Longrightarrow> move now cid p w p' w"
  using move.quiet[of p p' now cid w "runningProcessors w"] by simp

lemma set_status_paused:
  "campaigns w cid = Some c0 \<Longrightarrow>
     move now cid WrPaused w (Finally None)
       (w\<lparr>campaigns := (campaigns w)(cid \<mapsto> c0\<lparr>status := PAUSED\<rparr>)\<rparr>)"
  using move.set_status[of w cid c0 WrPaused PAUSED now "completedAt c0"] by simp

lemma set_status_completed:
  "campaigns w cid = Some c0 \<Longrightarrow>
     move now cid WrCompleted w (Finally None)
       (w\<lparr>campaigns := (campaigns w)(cid \<mapsto> c0\<lparr>status := COMPLETED, completedAt := Some now\<rparr>)\<rparr>)"
  using move.set_status[of w cid c0 WrCompleted COMPLETED now "Some now"] by simp

lemma pending_row_id: "pending_row ms cid mid \<Longrightarrow> mid \<in> m_id ` set ms"
proof -
  assume "pending_row ms cid mid"
  then obtain x where x: "x \<in> set ms" "m_id x = mid" by (auto simp: pending_row_def)
  from x(1) have "m_id x \<in> m_id ` set ms" by (rule imageI)
  with x(2) show ?thesis by simp
qed

lemma loop_step_move:
  assumes ok: "task_ok w (cid, p)" and s: "loop_step now reply tie cid p w = (p', w')"
  shows "move now cid p w p' w'"
proof (cases p)
  case Load
  with s show ?thesis by (auto intro!: quiet_same)
next
  case (Check co)
  with s show ?thesis by (cases co) (auto intro!: quiet_same split: if_splits)
next
  case WrPaused
  from ok obtain c0 where c0: "campaigns w cid = Some c0" by (auto simp: task_ok_def)
  with s WrPaused show ?thesis
    using set_status_paused[OF c0, of now] by (auto simp: update_campaign_def)
next
  case (Find c)
  with s show ?thesis
    by (auto split: option.splits intro: move.pick move.drained)
next
  case WrCompleted
  from ok obtain c0 where c0: "campaigns w cid = Some c0" by (auto simp: task_ok_def)
  with s WrCompleted show ?thesis
    using set_status_completed[OF c0, of now] by (auto simp: update_campaign_def)
next
  case (Send c m)
  obtain res ss rq where a: "apiRequest (sessions w) (instances w) (c_instanceId c) reply = (res, ss, rq)"
    by (cases "apiRequest (sessions w) (instances w) (c_instanceId c) reply") auto
  show ?thesis
  proof (cases res)
    case (Inl e)
    with s Send a show ?thesis
      using move.sent[of "MsgFailed c m e" m "if rq then sent_log w @ [m_id m] else sent_log w" w now cid c ss]
      by (auto simp: Let_def)
  next
    case (Inr u)
    with s Send a show ?thesis
      using move.sent[of "MsgSent c m" m "if rq then sent_log w @ [m_id m] else sent_log w" w now cid c ss]
      by (auto simp: Let_def)
  qed
next
  case (MsgSent c m)
  from ok MsgSent have "m_id m \<in> m_id ` set (messages w)"
    by (auto simp: task_ok_def intro: pending_row_id)
  with s MsgSent show ?thesis
    using move.finish[of "MsgSent c m" m "\<lambda>x. x\<lparr>m_status := SENT, sentAt := Some now\<rparr>"
                         "IncSent c m" now cid w]
    by (auto simp: update_message_def finishes_sent)
next
  case (IncSent c m)
  from ok obtain c0 where c0: "campaigns w cid = Some c0" by (auto simp: task_ok_def)
  with s IncSent show ?thesis
    using move.tally[of "IncSent c m" w cid c0 "c0\<lparr>sentMessages := sentMessages c0 + 1\<rparr>" now c]
    by (auto simp: update_campaign_def)
next
  case (MsgFailed c m e)
  from ok MsgFailed have "m_id m \<in> m_id ` set (messages w)"
    by (auto simp: task_ok_def intro: pending_row_id)
  with s MsgFailed show ?thesis
    using move.finish[of "MsgFailed c m e" m
                         "\<lambda>x. x\<lparr>m_status := FAILED, errorMsg := Some (error_message e)\<rparr>"
                         "IncFailed c" now cid w]
    by (auto simp: update_message_def finishes_failed)
next
  case (IncFailed c)
  from ok obtain c0 where c0: "campaigns w cid = Some c0" by (auto simp: task_ok_def)
  with s IncFailed show ?thesis
    using move.tally[of "IncFailed c" w cid c0 "c0\<lparr>failedMessages := failedMessages c0 + 1\<rparr>" now c]
    by (auto simp: update_campaign_def)
next
  case (Sleep c)
  with s show ?thesis by (auto intro!: quiet_same)
next
  case (Finally r)
  with s show ?thesis
    using move.quiet[of "Finally r" "Done r" now cid w "runningProcessors w - {cid}"] by auto
next
  case (Done r)
  with s show ?thesis by (auto intro!: quiet_same)
qed

lemma held_facts: "held p = Some m \<Longrightarrow> active p \<and> \<not> owing p \<and> p \<noteq> WrCompleted \<and> busy p"
  by (cases p) (simp_all add: active_def busy_def)

lemma owing_facts: "owing p \<Longrightarrow> active p \<and> p \<noteq> WrCompleted \<and> busy p \<and> post_send p = None"
  by (cases p) (simp_all add: active_def busy_def)

lemma post_send_held: "post_send p = Some mid \<Longrightarrow> \<exists>m. held p = Some m \<and> m_id m = mid"
  by (cases p) simp_all

lemma held_none_post: "held p = None \<Longrightarrow> post_send p = None"
  by (cases p) simp_all

lemma busy_active: "busy p \<Longrightarrow> active p"
  by (cases p) (simp_all add: active_def busy_def)

definition rest_ok :: "world \<Rightarrow> bool" where
  "rest_ok w = (ids_ok w \<and> tasks_ok w \<and> reqs_ok w \<and> count_ok w \<and> completed_ok w \<and> log_ok w)"

lemma inv_rest: "invariant w = (guard_ok w \<and> rest_ok w)"
  by (auto simp: invariant_def rest_ok_def)

lemma completed_okD:
  "invariant w \<Longrightarrow> campaigns w c0 = Some c \<Longrightarrow> status c = COMPLETED \<Longrightarrow>
     pending c0 (messages w) = 0
     \<and> (\<forall>j < length (loops w). fst (loops w ! j) = c0 \<longrightarrow> \<not> busy (snd (loops w ! j)))"
  unfolding invariant_def completed_ok_def by blast

lemma count_okD:
  "invariant w \<Longrightarrow> campaigns w c0 = Some c \<Longrightarrow>
     sentMessages c + failedMessages c + pending c0 (messages w) + cnt (is_owing c0) (loops w)
       = totalMessages c"
  unfolding invariant_def count_ok_def by blast

lemma log_okD:
  "invariant w \<Longrightarrow> mid \<in> set (sent_log w) \<Longrightarrow>
     mid < next_id w
     \<and> ((\<forall>x \<in> set (messages w). m_id x = mid \<longrightarrow> m_status x \<noteq> PENDING)
         \<or> (\<exists>j < length (loops w). post_send (snd (loops w ! j)) = Some mid))"
  unfolding invariant_def log_ok_def by blast

lemma task_okD: "invariant w \<Longrightarrow> j < length (loops w) \<Longrightarrow> task_ok w (loops w ! j)"
  unfolding invariant_def tasks_ok_def by blast

text \<open>Another active task of the same campaign is the task itself.\<close>

lemma other_task:
  assumes "invariant w" "i < length (loops w)" "loops w ! i = (cid, p)" "active p"
      and "j < length (loops w)" "fst (loops w ! j) = cid" "active (snd (loops w ! j))"
  shows "j = i"
proof -
  have g: "guard_ok w" using assms(1) by (simp add: invariant_def)
  show ?thesis
    by (rule unique_task[OF g assms(5) assms(2)]) (use assms in simp_all)
qed

lemma task_i_ok: "invariant w \<Longrightarrow> i < length (loops w) \<Longrightarrow> loops w ! i = (cid, p) \<Longrightarrow> task_ok w (cid, p)"
  by (auto simp: invariant_def tasks_ok_def)

text \<open>A task that holds a message with the id of the one task \<open>i\<close> holds is task \<open>i\<close>.\<close>

lemma holder_unique:
  assumes v: "invariant w" and i: "i < length (loops w)" and t: "loops w ! i = (cid, p)"
      and h: "held p = Some m"
      and j: "j < length (loops w)" and hj: "held (snd (loops w ! j)) = Some m'"
      and e: "m_id m' = m_id m"
  shows "j = i"
proof -
  have d: "distinct (map m_id (messages w))" using v by (simp add: invariant_def ids_ok_def)
  have a: "pending_row (messages w) cid (m_id m)"
    using task_i_ok[OF v i t] h by (simp add: task_ok_def)
  have "task_ok w (loops w ! j)" using v j by (simp add: invariant_def tasks_ok_def)
  then have b: "pending_row (messages w) (fst (loops w ! j)) (m_id m)"
    using hj e by (simp add: task_ok_def)
  have c: "fst (loops w ! j) = cid" using pending_row_unique[OF d b a] .
  show ?thesis
    by (rule other_task[OF v i t _ j c]) (use h hj held_facts in auto)
qed

lemma not_busy_update:
  assumes a: "\<forall>j < length ls. fst (ls ! j) = c0 \<longrightarrow> \<not> busy (snd (ls ! j))"
      and n: "cid = c0 \<longrightarrow> \<not> busy p'"
  shows "\<forall>j < length (ls[i := (cid, p')]).
           fst (ls[i := (cid, p')] ! j) = c0 \<longrightarrow> \<not> busy (snd (ls[i := (cid, p')] ! j))"
proof (intro allI impI)
  fix j assume j: "j < length (ls[i := (cid, p')])" and c: "fst (ls[i := (cid, p')] ! j) = c0"
  show "\<not> busy (snd (ls[i := (cid, p')] ! j))"
  proof (cases "j = i")
    case True
    with j c n show ?thesis by simp
  next
    case False
    with j c a show ?thesis by simp
  qed
qed

subsection \<open>Quiet moves\<close>

lemma rest_quiet:
  assumes v: "invariant w" and i: "i < length (loops w)" and t: "loops w ! i = (cid, p)"
      and q: "held p = None" "held p' = None" "\<not> owing p" "\<not> owing p'" "p' \<noteq> WrCompleted"
  shows "rest_ok (after_loop i cid p' (w\<lparr>runningProcessors := R\<rparr>))"
proof -
  let ?w = "after_loop i cid p' (w\<lparr>runningProcessors := R\<rparr>)"
  have f: "messages ?w = messages w" "campaigns ?w = campaigns w" "next_id ?w = next_id w"
          "requests ?w = requests w" "sent_log ?w = sent_log w"
          "loops ?w = (loops w)[i := (cid, p')]"
    by (simp_all add: after_loop_def)
  have ci: "cid \<in> dom (campaigns w)" using task_i_ok[OF v i t] by (simp add: task_ok_def)
  have 1: "ids_ok ?w" using v by (simp add: invariant_def ids_ok_def f)
  have 2: "tasks_ok ?w"
    unfolding tasks_ok_def
  proof (intro allI impI)
    fix j assume "j < length (loops ?w)"
    then have j: "j < length (loops w)" by (simp add: f)
    show "task_ok ?w (loops ?w ! j)"
    proof (cases "j = i")
      case True
      with i q ci show ?thesis by (simp add: f task_ok_def)
    next
      case False
      have "task_ok w (loops w ! j)" using v j by (simp add: invariant_def tasks_ok_def)
      with False show ?thesis by (simp add: f task_ok_def)
    qed
  qed
  have 3: "reqs_ok ?w" using v by (simp add: invariant_def reqs_ok_def req_ok_def f)
  have ow: "\<And>c. cnt (is_owing c) ((loops w)[i := (cid, p')]) = cnt (is_owing c) (loops w)"
    using i t q by (intro cnt_update_same) (simp_all add: is_owing_def)
  have 4: "count_ok ?w" using v by (simp add: invariant_def count_ok_def f ow)
  have 5: "completed_ok ?w"
    unfolding completed_ok_def
  proof (intro allI impI)
    fix c0 c assume a: "campaigns ?w c0 = Some c \<and> status c = COMPLETED"
    then have b: "pending c0 (messages w) = 0
        \<and> (\<forall>j < length (loops w). fst (loops w ! j) = c0 \<longrightarrow> \<not> busy (snd (loops w ! j)))"
      using completed_okD[OF v, of c0 c] by (simp add: f)
    show "pending c0 (messages ?w) = 0
        \<and> (\<forall>j < length (loops ?w). fst (loops ?w ! j) = c0 \<longrightarrow> \<not> busy (snd (loops ?w ! j)))"
      using b not_busy_update[of "loops w" c0 cid p' i] q by (simp add: f busy_def)
  qed
  have 6: "log_ok ?w"
    unfolding log_ok_def
  proof (intro conjI ballI)
    show "distinct (sent_log ?w)" using v by (simp add: invariant_def log_ok_def f)
  next
    fix mid assume "mid \<in> set (sent_log ?w)"
    then have m: "mid \<in> set (sent_log w)" by (simp add: f)
    with v show "mid < next_id ?w" by (simp add: invariant_def log_ok_def f)
    from v m have "(\<forall>x \<in> set (messages w). m_id x = mid \<longrightarrow> m_status x \<noteq> PENDING)
                \<or> (\<exists>j < length (loops w). post_send (snd (loops w ! j)) = Some mid)"
      by (simp add: invariant_def log_ok_def)
    then show "(\<forall>x \<in> set (messages ?w). m_id x = mid \<longrightarrow> m_status x \<noteq> PENDING)
                \<or> (\<exists>j < length (loops ?w). post_send (snd (loops ?w ! j)) = Some mid)"
    proof
      assume "\<forall>x \<in> set (messages w). m_id x = mid \<longrightarrow> m_status x \<noteq> PENDING"
      then show ?thesis by (simp add: f)
    next
      assume "\<exists>j < length (loops w). post_send (snd (loops w ! j)) = Some mid"
      then obtain j where j: "j < length (loops w)" "post_send (snd (loops w ! j)) = Some mid"
        by blast
      have "j \<noteq> i" using j t held_none_post[OF q(1)] by auto
      with j have "j < length (loops ?w) \<and> post_send (snd (loops ?w ! j)) = Some mid"
        by (simp add: f)
      then show ?thesis by blast
    qed
  qed
  show ?thesis using 1 2 3 4 5 6 by (simp add: rest_ok_def)
qed

subsection \<open>Moves that leave the store as it is\<close>

lemma tasks_pc:
  assumes v: "invariant w" and i: "i < length (loops w)"
      and W: "messages w2 = messages w" "dom (campaigns w2) = dom (campaigns w)"
             "loops w2 = (loops w)[i := (cid, p')]"
      and n: "task_ok w (cid, p')"
  shows "tasks_ok w2"
  unfolding tasks_ok_def
proof (intro allI impI)
  fix j assume "j < length (loops w2)"
  then have j: "j < length (loops w)" by (simp add: W)
  show "task_ok w2 (loops w2 ! j)"
  proof (cases "j = i")
    case True
    with i n show ?thesis by (simp add: W task_ok_def)
  next
    case False
    with task_okD[OF v j] show ?thesis by (simp add: W task_ok_def)
  qed
qed

lemma count_pc:
  assumes v: "invariant w" and i: "i < length (loops w)" and t: "loops w ! i = (cid, p)"
      and W: "messages w2 = messages w" "campaigns w2 = campaigns w"
             "loops w2 = (loops w)[i := (cid, p')]"
      and n: "owing p' = owing p"
  shows "count_ok w2"
proof -
  have ow: "\<And>c. cnt (is_owing c) ((loops w)[i := (cid, p')]) = cnt (is_owing c) (loops w)"
    using i t n by (intro cnt_update_same) (simp_all add: is_owing_def)
  show ?thesis using v by (simp add: invariant_def count_ok_def W ow)
qed

lemma completed_pc:
  assumes v: "invariant w" and i: "i < length (loops w)" and t: "loops w ! i = (cid, p)"
      and W: "messages w2 = messages w" "campaigns w2 = campaigns w"
             "loops w2 = (loops w)[i := (cid, p')]"
      and n: "busy p' \<longrightarrow> busy p \<or> (\<forall>c. campaigns w cid = Some c \<longrightarrow> status c \<noteq> COMPLETED)"
  shows "completed_ok w2"
  unfolding completed_ok_def
proof (intro allI impI)
  fix c0 c assume a: "campaigns w2 c0 = Some c \<and> status c = COMPLETED"
  then have a': "campaigns w c0 = Some c" "status c = COMPLETED" by (simp_all add: W)
  note b = completed_okD[OF v a']
  have "cid = c0 \<longrightarrow> \<not> busy p'"
  proof
    assume e: "cid = c0"
    from b i t e have "\<not> busy p" by auto
    with n a' e show "\<not> busy p'" by auto
  qed
  with b not_busy_update[of "loops w" c0 cid p' i]
  show "pending c0 (messages w2) = 0
        \<and> (\<forall>j < length (loops w2). fst (loops w2 ! j) = c0 \<longrightarrow> \<not> busy (snd (loops w2 ! j)))"
    by (simp add: W)
qed

lemma log_keep:
  assumes v: "invariant w" and i: "i < length (loops w)" and t: "loops w ! i = (cid, p)"
      and W: "messages w2 = messages w" "next_id w2 = next_id w"
             "loops w2 = (loops w)[i := (cid, p')]"
      and n: "\<And>mid. post_send p = Some mid \<Longrightarrow> post_send p' = Some mid"
      and m: "mid \<in> set (sent_log w)"
  shows "mid < next_id w2
         \<and> ((\<forall>x \<in> set (messages w2). m_id x = mid \<longrightarrow> m_status x \<noteq> PENDING)
             \<or> (\<exists>j < length (loops w2). post_send (snd (loops w2 ! j)) = Some mid))"
proof -
  note l = log_okD[OF v m]
  from l have "(\<forall>x \<in> set (messages w). m_id x = mid \<longrightarrow> m_status x \<noteq> PENDING)
                \<or> (\<exists>j < length (loops w). post_send (snd (loops w ! j)) = Some mid)" by simp
  then have "(\<forall>x \<in> set (messages w2). m_id x = mid \<longrightarrow> m_status x \<noteq> PENDING)
             \<or> (\<exists>j < length (loops w2). post_send (snd (loops w2 ! j)) = Some mid)"
  proof
    assume "\<forall>x \<in> set (messages w). m_id x = mid \<longrightarrow> m_status x \<noteq> PENDING"
    then show ?thesis by (simp add: W)
  next
    assume "\<exists>j < length (loops w). post_send (snd (loops w ! j)) = Some mid"
    then obtain j where j: "j < length (loops w)" "post_send (snd (loops w ! j)) = Some mid"
      by blast
    have "j < length (loops w2) \<and> post_send (snd (loops w2 ! j)) = Some mid"
    proof (cases "j = i")
      case True
      with j t n[of mid] i show ?thesis by (simp add: W)
    next
      case False
      with j show ?thesis by (simp add: W)
    qed
    then show ?thesis by blast
  qed
  with l show ?thesis by (simp add: W)
qed

lemma log_pc:
  assumes v: "invariant w" and i: "i < length (loops w)" and t: "loops w ! i = (cid, p)"
      and W: "messages w2 = messages w" "next_id w2 = next_id w"
             "loops w2 = (loops w)[i := (cid, p')]" "sent_log w2 = sent_log w"
      and n: "\<And>mid. post_send p = Some mid \<Longrightarrow> post_send p' = Some mid"
  shows "log_ok w2"
  unfolding log_ok_def
proof (intro conjI ballI)
  show "distinct (sent_log w2)" using v by (simp add: invariant_def log_ok_def W)
next
  fix mid assume "mid \<in> set (sent_log w2)"
  then have m: "mid \<in> set (sent_log w)" by (simp add: W)
  from log_keep[OF v i t W(1,2,3) n m]
  show "mid < next_id w2" by simp
  from log_keep[OF v i t W(1,2,3) n m]
  show "(\<forall>x \<in> set (messages w2). m_id x = mid \<longrightarrow> m_status x \<noteq> PENDING)
             \<or> (\<exists>j < length (loops w2). post_send (snd (loops w2 ! j)) = Some mid)" by simp
qed

lemma ids_same:
  "invariant w \<Longrightarrow> messages w2 = messages w \<Longrightarrow> dom (campaigns w2) = dom (campaigns w)
     \<Longrightarrow> next_id w2 = next_id w \<Longrightarrow> ids_ok w2"
  by (simp add: invariant_def ids_ok_def)

lemma reqs_same:
  "invariant w \<Longrightarrow> requests w2 = requests w \<Longrightarrow> dom (campaigns w2) = dom (campaigns w) \<Longrightarrow> reqs_ok w2"
  by (simp add: invariant_def reqs_ok_def req_ok_def)

lemma rest_pick:
  assumes v: "invariant w" and i: "i < length (loops w)" and t: "loops w ! i = (cid, Find c)"
      and q: "findFirst_pending tie cid (messages w) = Some m"
  shows "rest_ok (after_loop i cid (Send c m) w)"
proof -
  let ?w = "after_loop i cid (Send c m) w"
  have f: "messages ?w = messages w" "campaigns ?w = campaigns w" "next_id ?w = next_id w"
          "requests ?w = requests w" "sent_log ?w = sent_log w"
          "loops ?w = (loops w)[i := (cid, Send c m)]"
    by (simp_all add: after_loop_def)
  have ci: "cid \<in> dom (campaigns w)" using task_i_ok[OF v i t] by (simp add: task_ok_def)
  from findFirst_pending_Some[OF q] have pm: "m \<in> set (messages w)" "is_pending_of cid m"
    by simp_all
  then have pr: "pending_row (messages w) cid (m_id m)" by (auto simp: pending_row_def)
  have nt: "task_ok w (cid, Send c m)" using ci pr by (simp add: task_ok_def)
  have np: "pending cid (messages w) \<noteq> 0" using pm by (auto simp: pending_zero_iff)
  have nc: "\<forall>c'. campaigns w cid = Some c' \<longrightarrow> status c' \<noteq> COMPLETED"
    using completed_okD[OF v, of cid] np by auto
  have 1: "ids_ok ?w" by (rule ids_same[OF v]) (simp_all add: f)
  have 2: "tasks_ok ?w" by (rule tasks_pc[OF v i _ _ f(6) nt]) (simp_all add: f)
  have 3: "reqs_ok ?w" by (rule reqs_same[OF v]) (simp_all add: f)
  have 4: "count_ok ?w" by (rule count_pc[OF v i t f(1,2,6)]) simp
  have 5: "completed_ok ?w" by (rule completed_pc[OF v i t f(1,2,6)]) (use nc in simp)
  have 6: "log_ok ?w" by (rule log_pc[OF v i t f(1,3,6,5)]) simp
  show ?thesis using 1 2 3 4 5 6 by (simp add: rest_ok_def)
qed

lemma rest_drained:
  assumes v: "invariant w" and i: "i < length (loops w)" and t: "loops w ! i = (cid, Find c)"
      and q: "findFirst_pending tie cid (messages w) = None"
  shows "rest_ok (after_loop i cid WrCompleted w)"
proof -
  let ?w = "after_loop i cid WrCompleted w"
  have f: "messages ?w = messages w" "campaigns ?w = campaigns w" "next_id ?w = next_id w"
          "requests ?w = requests w" "sent_log ?w = sent_log w"
          "loops ?w = (loops w)[i := (cid, WrCompleted)]"
    by (simp_all add: after_loop_def)
  have ci: "cid \<in> dom (campaigns w)" using task_i_ok[OF v i t] by (simp add: task_ok_def)
  have "pending cid (messages w) = 0"
    using q by (simp add: findFirst_pending_None pending_zero_iff)
  then have nt: "task_ok w (cid, WrCompleted)" using ci by (simp add: task_ok_def)
  have 1: "ids_ok ?w" by (rule ids_same[OF v]) (simp_all add: f)
  have 2: "tasks_ok ?w" by (rule tasks_pc[OF v i _ _ f(6) nt]) (simp_all add: f)
  have 3: "reqs_ok ?w" by (rule reqs_same[OF v]) (simp_all add: f)
  have 4: "count_ok ?w" by (rule count_pc[OF v i t f(1,2,6)]) simp
  have 5: "completed_ok ?w" by (rule completed_pc[OF v i t f(1,2,6)]) (simp add: busy_def)
  have 6: "log_ok ?w" by (rule log_pc[OF v i t f(1,3,6,5)]) simp
  show ?thesis using 1 2 3 4 5 6 by (simp add: rest_ok_def)
qed

subsection \<open>The send\<close>

lemma rest_sent:
  assumes v: "invariant w" and i: "i < length (loops w)" and t: "loops w ! i = (cid, Send c m)"
      and q: "held p' = Some m" "post_send p' = Some (m_id m)" "\<not> owing p'"
      and lg: "lg = sent_log w \<or> lg = sent_log w @ [m_id m]"
  shows "rest_ok (after_loop i cid p' (w\<lparr>sessions := ss, sent_log := lg\<rparr>))"
proof -
  let ?w = "after_loop i cid p' (w\<lparr>sessions := ss, sent_log := lg\<rparr>)"
  have f: "messages ?w = messages w" "campaigns ?w = campaigns w" "next_id ?w = next_id w"
          "requests ?w = requests w" "sent_log ?w = lg"
          "loops ?w = (loops w)[i := (cid, p')]"
    by (simp_all add: after_loop_def)
  note ti = task_i_ok[OF v i t]
  have pr: "pending_row (messages w) cid (m_id m)" using ti by (simp add: task_ok_def)
  have nt: "task_ok w (cid, p')" using ti q held_facts[OF q(1)] by (simp add: task_ok_def)
  have 1: "ids_ok ?w" by (rule ids_same[OF v]) (simp_all add: f)
  have 2: "tasks_ok ?w" by (rule tasks_pc[OF v i _ _ f(6) nt]) (simp_all add: f)
  have 3: "reqs_ok ?w" by (rule reqs_same[OF v]) (simp_all add: f)
  have 4: "count_ok ?w" by (rule count_pc[OF v i t f(1,2,6)]) (use q in simp)
  have 5: "completed_ok ?w" by (rule completed_pc[OF v i t f(1,2,6)]) (simp add: busy_def)
  have fresh: "m_id m \<notin> set (sent_log w)"
  proof
    assume a: "m_id m \<in> set (sent_log w)"
    from log_okD[OF v a]
    have "(\<forall>x \<in> set (messages w). m_id x = m_id m \<longrightarrow> m_status x \<noteq> PENDING)
          \<or> (\<exists>j < length (loops w). post_send (snd (loops w ! j)) = Some (m_id m))" by simp
    then show False
    proof
      assume "\<forall>x \<in> set (messages w). m_id x = m_id m \<longrightarrow> m_status x \<noteq> PENDING"
      with pr show False by (auto simp: pending_row_def is_pending_of_def)
    next
      assume "\<exists>j < length (loops w). post_send (snd (loops w ! j)) = Some (m_id m)"
      then obtain j where j: "j < length (loops w)" "post_send (snd (loops w ! j)) = Some (m_id m)"
        by blast
      from post_send_held[OF j(2)] obtain m' where
        m': "held (snd (loops w ! j)) = Some m'" "m_id m' = m_id m" by blast
      have "held (Send c m) = Some m" by simp
      from holder_unique[OF v i t this j(1) m'] have "j = i" .
      with j(2) t show False by simp
    qed
  qed
  have bound: "m_id m < next_id w"
    using pr v by (auto simp: pending_row_def invariant_def ids_ok_def)
  have 6: "log_ok ?w"
    unfolding log_ok_def
  proof (intro conjI ballI)
    show "distinct (sent_log ?w)"
      using lg fresh v by (auto simp: f invariant_def log_ok_def)
  next
    fix mid assume a: "mid \<in> set (sent_log ?w)"
    have both: "mid < next_id ?w
         \<and> ((\<forall>x \<in> set (messages ?w). m_id x = mid \<longrightarrow> m_status x \<noteq> PENDING)
             \<or> (\<exists>j < length (loops ?w). post_send (snd (loops ?w ! j)) = Some mid))"
    proof (cases "mid \<in> set (sent_log w)")
      case True
      show ?thesis by (rule log_keep[OF v i t f(1,3,6) _ True]) simp
    next
      case False
      with a lg have e: "mid = m_id m" by (auto simp: f)
      have "i < length (loops ?w) \<and> post_send (snd (loops ?w ! i)) = Some mid"
        using i q e by (simp add: f)
      then have "\<exists>j < length (loops ?w). post_send (snd (loops ?w ! j)) = Some mid" by blast
      with bound e show ?thesis by (simp add: f)
    qed
    from both show "mid < next_id ?w" by simp
    from both show "(\<forall>x \<in> set (messages ?w). m_id x = mid \<longrightarrow> m_status x \<noteq> PENDING)
             \<or> (\<exists>j < length (loops ?w). post_send (snd (loops ?w ! j)) = Some mid)" by simp
  qed
  show ?thesis using 1 2 3 4 5 6 by (simp add: rest_ok_def)
qed

subsection \<open>Writing the campaign's status\<close>

lemma rest_set_status:
  assumes v: "invariant w" and i: "i < length (loops w)" and t: "loops w ! i = (cid, p)"
      and c0: "campaigns w cid = Some c0"
      and q: "p = WrPaused \<or> p = WrCompleted" "p = WrPaused \<longrightarrow> st = PAUSED"
             "st = COMPLETED \<longrightarrow> p = WrCompleted"
  shows "rest_ok (after_loop i cid (Finally None)
           (w\<lparr>campaigns := (campaigns w)(cid \<mapsto> c0\<lparr>status := st, completedAt := tt\<rparr>)\<rparr>))"
proof -
  let ?c1 = "c0\<lparr>status := st, completedAt := tt\<rparr>"
  let ?w = "after_loop i cid (Finally None) (w\<lparr>campaigns := (campaigns w)(cid \<mapsto> ?c1)\<rparr>)"
  have f: "messages ?w = messages w" "campaigns ?w = (campaigns w)(cid \<mapsto> ?c1)"
          "next_id ?w = next_id w"
          "requests ?w = requests w" "sent_log ?w = sent_log w"
          "loops ?w = (loops w)[i := (cid, Finally None)]"
    by (simp_all add: after_loop_def)
  have d: "dom (campaigns ?w) = dom (campaigns w)" using c0 by (auto simp: f)
  note ti = task_i_ok[OF v i t]
  have ap: "active p" "\<not> owing p" "held p = None" "post_send p = None" "\<not> busy p"
    using q(1) by (auto simp: active_def busy_def)
  have nt: "task_ok w (cid, Finally None)" using ti by (simp add: task_ok_def)
  have 1: "ids_ok ?w" by (rule ids_same[OF v f(1) d f(3)])
  have 2: "tasks_ok ?w" by (rule tasks_pc[OF v i f(1) d f(6) nt])
  have 3: "reqs_ok ?w" by (rule reqs_same[OF v f(4) d])
  have ow: "\<And>c. cnt (is_owing c) ((loops w)[i := (cid, Finally None)]) = cnt (is_owing c) (loops w)"
    using i t ap by (intro cnt_update_same) (simp_all add: is_owing_def)
  have 4: "count_ok ?w"
    unfolding count_ok_def
  proof (intro allI impI)
    fix k c assume a: "campaigns ?w k = Some c"
    show "sentMessages c + failedMessages c + pending k (messages ?w)
            + cnt (is_owing k) (loops ?w) = totalMessages c"
    proof (cases "k = cid")
      case True
      with a have "c = ?c1" by (simp add: f)
      with count_okD[OF v c0] True show ?thesis by (simp add: f ow)
    next
      case False
      with a have "campaigns w k = Some c" by (simp add: f)
      from count_okD[OF v this] show ?thesis by (simp add: f ow)
    qed
  qed
  have 5: "completed_ok ?w"
    unfolding completed_ok_def
  proof (intro allI impI)
    fix k c assume a: "campaigns ?w k = Some c \<and> status c = COMPLETED"
    show "pending k (messages ?w) = 0
        \<and> (\<forall>j < length (loops ?w). fst (loops ?w ! j) = k \<longrightarrow> \<not> busy (snd (loops ?w ! j)))"
    proof (cases "k = cid")
      case True
      with a have "st = COMPLETED" by (auto simp: f)
      with q have pw: "p = WrCompleted" by simp
      with ti have p0: "pending cid (messages w) = 0" by (simp add: task_ok_def)
      have nb: "\<forall>j < length (loops w). fst (loops w ! j) = cid \<longrightarrow> \<not> busy (snd (loops w ! j))"
      proof (intro allI impI)
        fix j assume j: "j < length (loops w)" and cj: "fst (loops w ! j) = cid"
        show "\<not> busy (snd (loops w ! j))"
        proof
          assume "busy (snd (loops w ! j))"
          then have "active (snd (loops w ! j))" by (rule busy_active)
          from other_task[OF v i t ap(1) j cj this] have "j = i" .
          with t ap \<open>busy (snd (loops w ! j))\<close> show False by simp
        qed
      qed
      from not_busy_update[OF nb, of cid "Finally None" i] p0 True
      show ?thesis by (simp add: f busy_def)
    next
      case False
      with a have a': "campaigns w k = Some c" "status c = COMPLETED" by (simp_all add: f)
      note b = completed_okD[OF v a']
      from b not_busy_update[of "loops w" k cid "Finally None" i] False
      show ?thesis by (simp add: f)
    qed
  qed
  have 6: "log_ok ?w" by (rule log_pc[OF v i t f(1,3,6,5)]) (simp add: ap)
  show ?thesis using 1 2 3 4 5 6 by (simp add: rest_ok_def)
qed

subsection \<open>Adding one to a counter\<close>

lemma rest_tally:
  assumes v: "invariant w" and i: "i < length (loops w)" and t: "loops w ! i = (cid, p)"
      and q: "owing p" "held p = None"
      and c0: "campaigns w cid = Some c0"
      and c1: "sentMessages c1 + failedMessages c1 = sentMessages c0 + failedMessages c0 + 1"
              "totalMessages c1 = totalMessages c0" "status c1 = status c0"
  shows "rest_ok (after_loop i cid (Sleep c) (w\<lparr>campaigns := (campaigns w)(cid \<mapsto> c1)\<rparr>))"
proof -
  let ?w = "after_loop i cid (Sleep c) (w\<lparr>campaigns := (campaigns w)(cid \<mapsto> c1)\<rparr>)"
  have f: "messages ?w = messages w" "campaigns ?w = (campaigns w)(cid \<mapsto> c1)"
          "next_id ?w = next_id w"
          "requests ?w = requests w" "sent_log ?w = sent_log w"
          "loops ?w = (loops w)[i := (cid, Sleep c)]"
    by (simp_all add: after_loop_def)
  have d: "dom (campaigns ?w) = dom (campaigns w)" using c0 by (auto simp: f)
  note ti = task_i_ok[OF v i t]
  note of = owing_facts[OF q(1)]
  have nt: "task_ok w (cid, Sleep c)" using ti by (simp add: task_ok_def)
  have 1: "ids_ok ?w" by (rule ids_same[OF v f(1) d f(3)])
  have 2: "tasks_ok ?w" by (rule tasks_pc[OF v i f(1) d f(6) nt])
  have 3: "reqs_ok ?w" by (rule reqs_same[OF v f(4) d])
  have 4: "count_ok ?w"
    unfolding count_ok_def
  proof (intro allI impI)
    fix k c' assume a: "campaigns ?w k = Some c'"
    have u: "cnt (is_owing k) ((loops w)[i := (cid, Sleep c)])
               + (if is_owing k (loops w ! i) then 1 else 0)
             = cnt (is_owing k) (loops w) + (if is_owing k (cid, Sleep c) then 1 else 0)"
      using i by (rule cnt_update)
    show "sentMessages c' + failedMessages c' + pending k (messages ?w)
            + cnt (is_owing k) (loops ?w) = totalMessages c'"
    proof (cases "k = cid")
      case True
      with a have e: "c' = c1" by (simp add: f)
      from u t q True have "cnt (is_owing cid) ((loops w)[i := (cid, Sleep c)]) + 1
                              = cnt (is_owing cid) (loops w)"
        by (simp add: is_owing_def)
      with count_okD[OF v c0] c1 e True show ?thesis by (simp add: f)
    next
      case False
      with a have a': "campaigns w k = Some c'" by (simp add: f)
      from u t False have "cnt (is_owing k) ((loops w)[i := (cid, Sleep c)]) = cnt (is_owing k) (loops w)"
        by (simp add: is_owing_def)
      with count_okD[OF v a'] show ?thesis by (simp add: f)
    qed
  qed
  have 5: "completed_ok ?w"
    unfolding completed_ok_def
  proof (intro allI impI)
    fix k c' assume a: "campaigns ?w k = Some c' \<and> status c' = COMPLETED"
    show "pending k (messages ?w) = 0
        \<and> (\<forall>j < length (loops ?w). fst (loops ?w ! j) = k \<longrightarrow> \<not> busy (snd (loops ?w ! j)))"
    proof (cases "k = cid")
      case True
      with a c1 have "status c0 = COMPLETED" by (auto simp: f)
      from completed_okD[OF v c0 this] i t have "\<not> busy p" by auto
      with of show ?thesis by simp
    next
      case False
      with a have a': "campaigns w k = Some c'" "status c' = COMPLETED" by (simp_all add: f)
      note b = completed_okD[OF v a']
      from b not_busy_update[of "loops w" k cid "Sleep c" i] False
      show ?thesis by (simp add: f)
    qed
  qed
  have 6: "log_ok ?w" by (rule log_pc[OF v i t f(1,3,6,5)]) (simp add: of)
  show ?thesis using 1 2 3 4 5 6 by (simp add: rest_ok_def)
qed

subsection \<open>Marking the message\<close>

lemma rest_finish:
  assumes v: "invariant w" and i: "i < length (loops w)" and t: "loops w ! i = (cid, p)"
      and q: "held p = Some m" "post_send p = Some (m_id m)" "finishes f"
             "owing p'" "held p' = None" "post_send p' = None"
  shows "rest_ok (after_loop i cid p' (w\<lparr>messages := upd_msg (m_id m) f (messages w)\<rparr>))"
proof -
  let ?ms = "upd_msg (m_id m) f (messages w)"
  let ?w = "after_loop i cid p' (w\<lparr>messages := ?ms\<rparr>)"
  have g: "messages ?w = ?ms" "campaigns ?w = campaigns w" "next_id ?w = next_id w"
          "requests ?w = requests w" "sent_log ?w = sent_log w"
          "loops ?w = (loops w)[i := (cid, p')]"
    by (simp_all add: after_loop_def)
  note ti = task_i_ok[OF v i t]
  note hf = held_facts[OF q(1)]
  note of = owing_facts[OF q(4)]
  have dist: "distinct (map m_id (messages w))" using v by (simp add: invariant_def ids_ok_def)
  have pr: "pending_row (messages w) cid (m_id m)" using ti q by (simp add: task_ok_def)
  have fin: "\<And>x. m_id (f x) = m_id x" "\<And>x. m_campaignId (f x) = m_campaignId x"
            "\<And>x. m_status (f x) \<noteq> PENDING"
    using q(3) by (simp_all add: finishes_def)
  have 1: "ids_ok ?w"
    unfolding ids_ok_def
  proof (intro conjI)
    show "distinct (map m_id (messages ?w))" using dist by (simp add: g upd_msg_ids[OF q(3)])
  next
    show "\<forall>y \<in> set (messages ?w). m_id y < next_id ?w
            \<and> (\<forall>c. m_campaignId y = Some c \<longrightarrow> c < next_id ?w)"
    proof
      fix y assume "y \<in> set (messages ?w)"
      then have "y \<in> set (messages w) \<or> (\<exists>x \<in> set (messages w). y = f x)"
        using upd_msg_set[of y "m_id m" f "messages w"] by (auto simp: g)
      then show "m_id y < next_id ?w \<and> (\<forall>c. m_campaignId y = Some c \<longrightarrow> c < next_id ?w)"
        using v fin by (auto simp: invariant_def ids_ok_def g)
    qed
  next
    show "\<forall>k \<in> dom (campaigns ?w). k < next_id ?w"
      using v by (simp add: invariant_def ids_ok_def g)
  qed
  have 2: "tasks_ok ?w"
    unfolding tasks_ok_def
  proof (intro allI impI)
    fix j assume "j < length (loops ?w)"
    then have j: "j < length (loops w)" by (simp add: g)
    show "task_ok ?w (loops ?w ! j)"
    proof (cases "j = i")
      case True
      with i ti q of show ?thesis by (simp add: g task_ok_def)
    next
      case False
      note tj = task_okD[OF v j]
      have a: "fst (loops w ! j) \<in> dom (campaigns ?w)" using tj by (simp add: task_ok_def g)
      have b: "\<forall>m'. held (snd (loops w ! j)) = Some m' \<longrightarrow>
                 pending_row (messages ?w) (fst (loops w ! j)) (m_id m')"
      proof (intro allI impI)
        fix m' assume h: "held (snd (loops w ! j)) = Some m'"
        have ne: "m_id m' \<noteq> m_id m"
        proof
          assume "m_id m' = m_id m"
          from holder_unique[OF v i t q(1) j h this] False show False by simp
        qed
        from tj h have "pending_row (messages w) (fst (loops w ! j)) (m_id m')"
          by (simp add: task_ok_def)
        then obtain x where x: "x \<in> set (messages w)" "m_id x = m_id m'"
                               "is_pending_of (fst (loops w ! j)) x"
          by (auto simp: pending_row_def)
        from x(1,2) ne have "x \<in> set ?ms" by (intro upd_msg_keeps) simp_all
        with x show "pending_row (messages ?w) (fst (loops w ! j)) (m_id m')"
          by (auto simp: pending_row_def g)
      qed
      have c: "snd (loops w ! j) = WrCompleted \<longrightarrow> pending (fst (loops w ! j)) (messages ?w) = 0"
      proof
        assume "snd (loops w ! j) = WrCompleted"
        with tj have "pending (fst (loops w ! j)) (messages w) = 0" by (simp add: task_ok_def)
        with pending_upd_le[OF q(3), of "fst (loops w ! j)" "m_id m" "messages w"]
        show "pending (fst (loops w ! j)) (messages ?w) = 0" by (simp add: g)
      qed
      from a b c False j show ?thesis by (simp add: g task_ok_def)
    qed
  qed
  have 3: "reqs_ok ?w" by (rule reqs_same[OF v]) (simp_all add: g)
  have other_pending: "\<And>k. k \<noteq> cid \<Longrightarrow> pending k ?ms = pending k (messages w)"
  proof -
    fix k assume k: "k \<noteq> cid"
    have "\<forall>x \<in> set (messages w). m_id x = m_id m \<longrightarrow> \<not> is_pending_of k x"
    proof (intro ballI impI)
      fix x assume "x \<in> set (messages w)" "m_id x = m_id m"
      from pending_row_rows[OF dist pr this] k show "\<not> is_pending_of k x"
        by (auto simp: is_pending_of_def)
    qed
    with q(3) show "pending k ?ms = pending k (messages w)" by (rule pending_upd_other)
  qed
  have own_pending: "Suc (pending cid ?ms) = pending cid (messages w)"
  proof -
    from pr obtain x where x: "x \<in> set (messages w)" "m_id x = m_id m" "is_pending_of cid x"
      by (auto simp: pending_row_def)
    from pending_upd_same[OF q(3) dist x] show ?thesis .
  qed
  have 4: "count_ok ?w"
    unfolding count_ok_def
  proof (intro allI impI)
    fix k c assume "campaigns ?w k = Some c"
    then have a: "campaigns w k = Some c" by (simp add: g)
    have u: "cnt (is_owing k) ((loops w)[i := (cid, p')])
               + (if is_owing k (loops w ! i) then 1 else 0)
             = cnt (is_owing k) (loops w) + (if is_owing k (cid, p') then 1 else 0)"
      using i by (rule cnt_update)
    show "sentMessages c + failedMessages c + pending k (messages ?w)
            + cnt (is_owing k) (loops ?w) = totalMessages c"
    proof (cases "k = cid")
      case True
      from u t q hf True have "cnt (is_owing cid) ((loops w)[i := (cid, p')])
                              = cnt (is_owing cid) (loops w) + 1"
        by (simp add: is_owing_def)
      with count_okD[OF v a] own_pending True show ?thesis by (simp add: g)
    next
      case False
      from u t False have "cnt (is_owing k) ((loops w)[i := (cid, p')]) = cnt (is_owing k) (loops w)"
        by (simp add: is_owing_def)
      with count_okD[OF v a] other_pending[OF False] show ?thesis by (simp add: g)
    qed
  qed
  have 5: "completed_ok ?w"
    unfolding completed_ok_def
  proof (intro allI impI)
    fix k c assume "campaigns ?w k = Some c \<and> status c = COMPLETED"
    then have a: "campaigns w k = Some c" "status c = COMPLETED" by (simp_all add: g)
    note b = completed_okD[OF v a]
    have kc: "k \<noteq> cid"
    proof
      assume "k = cid"
      with b i t have "\<not> busy p" by auto
      with hf show False by simp
    qed
    from b other_pending[OF kc] not_busy_update[of "loops w" k cid p' i] kc
    show "pending k (messages ?w) = 0
        \<and> (\<forall>j < length (loops ?w). fst (loops ?w ! j) = k \<longrightarrow> \<not> busy (snd (loops ?w ! j)))"
      by (simp add: g)
  qed
  have done_rows: "\<And>y. y \<in> set ?ms \<Longrightarrow> m_id y = m_id m \<Longrightarrow> m_status y \<noteq> PENDING"
  proof -
    fix y assume "y \<in> set ?ms" "m_id y = m_id m"
    with upd_msg_set[of y "m_id m" f "messages w"] have "\<exists>x \<in> set (messages w). y = f x" by auto
    with fin show "m_status y \<noteq> PENDING" by auto
  qed
  have kept_rows: "\<And>y mid. y \<in> set ?ms \<Longrightarrow> m_id y = mid
        \<Longrightarrow> \<forall>x \<in> set (messages w). m_id x = mid \<longrightarrow> m_status x \<noteq> PENDING
        \<Longrightarrow> m_status y \<noteq> PENDING"
  proof -
    fix y mid assume y: "y \<in> set ?ms" "m_id y = mid"
       and a: "\<forall>x \<in> set (messages w). m_id x = mid \<longrightarrow> m_status x \<noteq> PENDING"
    from upd_msg_set[OF y(1)] show "m_status y \<noteq> PENDING"
    proof
      assume "y \<in> set (messages w) \<and> m_id y \<noteq> m_id m"
      with a y show ?thesis by simp
    next
      assume "\<exists>x \<in> set (messages w). m_id x = m_id m \<and> y = f x"
      with fin show ?thesis by auto
    qed
  qed
  have 6: "log_ok ?w"
    unfolding log_ok_def
  proof (intro conjI ballI)
    show "distinct (sent_log ?w)" using v by (simp add: invariant_def log_ok_def g)
  next
    fix mid assume "mid \<in> set (sent_log ?w)"
    then have a: "mid \<in> set (sent_log w)" by (simp add: g)
    note l = log_okD[OF v a]
    from l show "mid < next_id ?w" by (simp add: g)
    from l have "(\<forall>x \<in> set (messages w). m_id x = mid \<longrightarrow> m_status x \<noteq> PENDING)
                \<or> (\<exists>j < length (loops w). post_send (snd (loops w ! j)) = Some mid)" by simp
    then show "(\<forall>x \<in> set (messages ?w). m_id x = mid \<longrightarrow> m_status x \<noteq> PENDING)
             \<or> (\<exists>j < length (loops ?w). post_send (snd (loops ?w ! j)) = Some mid)"
    proof
      assume n: "\<forall>x \<in> set (messages w). m_id x = mid \<longrightarrow> m_status x \<noteq> PENDING"
      have "\<forall>y \<in> set (messages ?w). m_id y = mid \<longrightarrow> m_status y \<noteq> PENDING"
        using kept_rows n by (auto simp: g)
      then show ?thesis by simp
    next
      assume "\<exists>j < length (loops w). post_send (snd (loops w ! j)) = Some mid"
      then obtain j where j: "j < length (loops w)" "post_send (snd (loops w ! j)) = Some mid"
        by blast
      show ?thesis
      proof (cases "j = i")
        case True
        with j t q have "mid = m_id m" by simp
        then have "\<forall>y \<in> set (messages ?w). m_id y = mid \<longrightarrow> m_status y \<noteq> PENDING"
          using done_rows by (auto simp: g)
        then show ?thesis by simp
      next
        case False
        with j have "j < length (loops ?w) \<and> post_send (snd (loops ?w ! j)) = Some mid"
          by (simp add: g)
        then show ?thesis by blast
      qed
    qed
  qed
  show ?thesis using 1 2 3 4 5 6 by (simp add: rest_ok_def)
qed

subsection \<open>Every step of a run keeps the invariant\<close>

lemma rest_move:
  "move now cid p w p' w' \<Longrightarrow> invariant w \<and> i < length (loops w) \<and> loops w ! i = (cid, p)
     \<longrightarrow> rest_ok (after_loop i cid p' w')"
proof (induction rule: move.induct)
  case (quiet p p' now cid w R)
  then show ?case using rest_quiet by blast
next
  case (pick tie cid w m now c)
  then show ?case using rest_pick by blast
next
  case (drained tie cid w now c)
  then show ?case using rest_drained by blast
next
  case (set_status w cid c0 p st now t)
  then show ?case using rest_set_status by blast
next
  case (sent p' m lg w now cid c ss)
  then show ?case using rest_sent by blast
next
  case (finish p m f p' now cid w)
  then show ?case using rest_finish by blast
next
  case (tally p w cid c0 c1 now c)
  then show ?case using rest_tally by blast
qed

lemma inv_loop:
  assumes v: "invariant w" and i: "i < length (loops w)" and t: "loops w ! i = (cid, p)"
      and s: "loop_step now reply tie cid p w = (p', w')"
  shows "invariant (after_loop i cid p' w')"
proof -
  have g: "guard_ok w" using v by (simp add: invariant_def)
  have 1: "guard_ok (after_loop i cid p' w')" by (rule guard_loop[OF g i t s])
  have "move now cid p w p' w'" by (rule loop_step_move[OF task_i_ok[OF v i t] s])
  from rest_move[OF this, of i] v i t have 2: "rest_ok (after_loop i cid p' w')" by simp
  from 1 2 show ?thesis by (simp add: inv_rest)
qed

subsection \<open>Requests\<close>

lemma inv_status_write:
  assumes v: "invariant w" and c0: "campaigns w cid = Some c0" and st: "st \<noteq> COMPLETED"
  shows "invariant (w\<lparr>campaigns := (campaigns w)(cid \<mapsto> c0\<lparr>status := st, startedAt := t\<rparr>)\<rparr>)"
proof -
  let ?c1 = "c0\<lparr>status := st, startedAt := t\<rparr>"
  let ?w = "w\<lparr>campaigns := (campaigns w)(cid \<mapsto> ?c1)\<rparr>"
  have d: "dom (campaigns ?w) = dom (campaigns w)" using c0 by auto
  have 0: "guard_ok ?w" using v by (simp add: invariant_def guard_ok_def)
  have 1: "ids_ok ?w" by (rule ids_same[OF v _ d]) simp_all
  have 2: "tasks_ok ?w" using v d by (simp add: invariant_def tasks_ok_def task_ok_def)
  have 3: "reqs_ok ?w" by (rule reqs_same[OF v _ d]) simp
  have 4: "count_ok ?w"
    unfolding count_ok_def
  proof (intro allI impI)
    fix k c assume a: "campaigns ?w k = Some c"
    show "sentMessages c + failedMessages c + pending k (messages ?w)
            + cnt (is_owing k) (loops ?w) = totalMessages c"
    proof (cases "k = cid")
      case True
      with a have "c = ?c1" by simp
      with count_okD[OF v c0] True show ?thesis by simp
    next
      case False
      with a have "campaigns w k = Some c" by simp
      from count_okD[OF v this] show ?thesis by simp
    qed
  qed
  have 5: "completed_ok ?w"
    unfolding completed_ok_def
  proof (intro allI impI)
    fix k c assume a: "campaigns ?w k = Some c \<and> status c = COMPLETED"
    have "k \<noteq> cid" using a st by auto
    with a have "campaigns w k = Some c" "status c = COMPLETED" by simp_all
    from completed_okD[OF v this]
    show "pending k (messages ?w) = 0
        \<and> (\<forall>j < length (loops ?w). fst (loops ?w ! j) = k \<longrightarrow> \<not> busy (snd (loops ?w ! j)))"
      by simp
  qed
  have 6: "log_ok ?w" using v by (simp add: invariant_def log_ok_def)
  show ?thesis using 0 1 2 3 4 5 6 by (simp add: invariant_def)
qed

lemma inv_processCampaign:
  assumes v: "invariant w" and ci: "cid \<in> dom (campaigns w)"
  shows "invariant (processCampaign cid w)"
proof (cases "cid \<in> runningProcessors w")
  case True
  with v show ?thesis by (simp add: processCampaign_def)
next
  case False
  let ?w = "processCampaign cid w"
  have f: "loops ?w = loops w @ [(cid, Load)]" "campaigns ?w = campaigns w"
          "messages ?w = messages w" "next_id ?w = next_id w" "requests ?w = requests w"
          "sent_log ?w = sent_log w"
    using False by (simp_all add: processCampaign_def)
  have nth: "\<And>j. j < length (loops w) \<Longrightarrow> loops ?w ! j = loops w ! j"
    by (simp add: f nth_append)
  have 0: "guard_ok ?w" using v guard_processCampaign by (simp add: invariant_def)
  have 1: "ids_ok ?w" by (rule ids_same[OF v]) (simp_all add: f)
  have 2: "tasks_ok ?w"
    unfolding tasks_ok_def
  proof (intro allI impI)
    fix j assume j: "j < length (loops ?w)"
    show "task_ok ?w (loops ?w ! j)"
    proof (cases "j < length (loops w)")
      case True
      with task_okD[OF v True] show ?thesis by (simp add: f nth_append task_ok_def)
    next
      case False
      with j have "loops ?w ! j = (cid, Load)" by (simp add: f nth_append)
      with ci show ?thesis by (simp add: task_ok_def f)
    qed
  qed
  have 3: "reqs_ok ?w" by (rule reqs_same[OF v]) (simp_all add: f)
  have 4: "count_ok ?w" using v by (simp add: invariant_def count_ok_def f cnt_append is_owing_def)
  have 5: "completed_ok ?w"
    unfolding completed_ok_def
  proof (intro allI impI)
    fix k c assume "campaigns ?w k = Some c \<and> status c = COMPLETED"
    then have a: "campaigns w k = Some c" "status c = COMPLETED" by (simp_all add: f)
    note b = completed_okD[OF v a]
    have "\<forall>j < length (loops ?w). fst (loops ?w ! j) = k \<longrightarrow> \<not> busy (snd (loops ?w ! j))"
    proof (intro allI impI)
      fix j assume j: "j < length (loops ?w)" and e: "fst (loops ?w ! j) = k"
      show "\<not> busy (snd (loops ?w ! j))"
      proof (cases "j < length (loops w)")
        case True
        with b e show ?thesis by (simp add: f nth_append)
      next
        case False
        with j have "loops ?w ! j = (cid, Load)" by (simp add: f nth_append)
        then show ?thesis by (simp add: busy_def)
      qed
    qed
    with b show "pending k (messages ?w) = 0
        \<and> (\<forall>j < length (loops ?w). fst (loops ?w ! j) = k \<longrightarrow> \<not> busy (snd (loops ?w ! j)))"
      by (simp add: f)
  qed
  have 6: "log_ok ?w"
    unfolding log_ok_def
  proof (intro conjI ballI)
    show "distinct (sent_log ?w)" using v by (simp add: invariant_def log_ok_def f)
  next
    fix mid assume "mid \<in> set (sent_log ?w)"
    then have a: "mid \<in> set (sent_log w)" by (simp add: f)
    note l = log_okD[OF v a]
    from l show "mid < next_id ?w" by (simp add: f)
    from l have "(\<forall>x \<in> set (messages w). m_id x = mid \<longrightarrow> m_status x \<noteq> PENDING)
                \<or> (\<exists>j < length (loops w). post_send (snd (loops w ! j)) = Some mid)" by simp
    then show "(\<forall>x \<in> set (messages ?w). m_id x = mid \<longrightarrow> m_status x \<noteq> PENDING)
             \<or> (\<exists>j < length (loops ?w). post_send (snd (loops ?w ! j)) = Some mid)"
    proof
      assume "\<forall>x \<in> set (messages w). m_id x = mid \<longrightarrow> m_status x \<noteq> PENDING"
      then show ?thesis by (simp add: f)
    next
      assume "\<exists>j < length (loops w). post_send (snd (loops w ! j)) = Some mid"
      then obtain j where j: "j < length (loops w)" "post_send (snd (loops w ! j)) = Some mid"
        by blast
      then have "j < length (loops ?w) \<and> post_send (snd (loops ?w ! j)) = Some mid"
        by (simp add: f nth_append)
      then show ?thesis by blast
    qed
  qed
  show ?thesis using 0 1 2 3 4 5 6 by (simp add: invariant_def)
qed

lemma inv_requests:
  "invariant w \<Longrightarrow> \<forall>j < length rs. req_ok w (rs ! j) \<Longrightarrow> invariant (w\<lparr>requests := rs\<rparr>)"
  by (simp add: invariant_def guard_ok_def ids_ok_def tasks_ok_def task_ok_def reqs_ok_def req_ok_def
                count_ok_def completed_ok_def log_ok_def)

lemma control_check_not_completed: "control_check found a = Inr st \<Longrightarrow> st \<noteq> COMPLETED"
  by (auto simp: control_check_def split: option.splits action.splits if_splits)

lemma req_ok_dom: "req_ok w r \<Longrightarrow> dom (campaigns w') = dom (campaigns w) \<Longrightarrow> req_ok w' r"
  by (simp add: req_ok_def)

lemma req_step_inv:
  assumes v: "invariant w" and r: "req_ok w r"
      and s: "req_step now (r_user r) (r_campaign r) (r_pc r) w = (p', w')"
  shows "invariant w' \<and> req_ok w' (r\<lparr>r_pc := p'\<rparr>) \<and> dom (campaigns w') = dom (campaigns w)
         \<and> requests w' = requests w"
proof (cases "r_pc r")
  case StartRead
  with s v r show ?thesis by (auto simp: req_ok_def)
next
  case (StartCheck found)
  with s v r show ?thesis by (auto simp: req_ok_def split: sum.splits)
next
  case StartWrite
  show ?thesis
  proof (cases "campaigns w (r_campaign r)")
    case None
    with s StartWrite v r show ?thesis by (auto simp: req_ok_def update_campaign_def)
  next
    case (Some c0)
    have "invariant (w\<lparr>campaigns := (campaigns w)(r_campaign r \<mapsto> c0\<lparr>status := RUNNING, startedAt := Some now\<rparr>)\<rparr>)"
      by (rule inv_status_write[OF v Some]) simp
    moreover have "dom ((campaigns w)(r_campaign r \<mapsto> c0\<lparr>status := RUNNING, startedAt := Some now\<rparr>))
                     = dom (campaigns w)"
      using Some by auto
    moreover have "r_campaign r \<in> dom (campaigns w)" using Some by auto
    ultimately show ?thesis using s StartWrite Some
      by (auto simp: req_ok_def update_campaign_def)
  qed
next
  case StartInvoke
  with r have ci: "r_campaign r \<in> dom (campaigns w)" by (simp add: req_ok_def)
  from inv_processCampaign[OF v ci] s StartInvoke show ?thesis
    by (auto simp: req_ok_def processCampaign_frame)
next
  case (CtlRead a)
  with s v r show ?thesis
    by (auto simp: req_ok_def split: sum.splits dest: control_check_not_completed)
next
  case (CtlWrite a st)
  with r have st: "st \<noteq> COMPLETED" by (auto simp: req_ok_def)
  show ?thesis
  proof (cases "campaigns w (r_campaign r)")
    case None
    with s CtlWrite v r show ?thesis by (auto simp: req_ok_def update_campaign_def)
  next
    case (Some c0)
    have "invariant (w\<lparr>campaigns := (campaigns w)(r_campaign r \<mapsto> c0\<lparr>status := st, startedAt := startedAt c0\<rparr>)\<rparr>)"
      by (rule inv_status_write[OF v Some st])
    moreover have "c0\<lparr>status := st, startedAt := startedAt c0\<rparr> = c0\<lparr>status := st\<rparr>" by simp
    ultimately have "invariant (w\<lparr>campaigns := (campaigns w)(r_campaign r \<mapsto> c0\<lparr>status := st\<rparr>)\<rparr>)"
      by simp
    moreover have "dom ((campaigns w)(r_campaign r \<mapsto> c0\<lparr>status := st\<rparr>)) = dom (campaigns w)"
      using Some by auto
    moreover have "r_campaign r \<in> dom (campaigns w)" using Some by auto
    ultimately show ?thesis using s CtlWrite Some
      by (auto simp: req_ok_def update_campaign_def split: if_splits)
  qed
next
  case CtlInvoke
  with r have ci: "r_campaign r \<in> dom (campaigns w)" by (simp add: req_ok_def)
  from inv_processCampaign[OF v ci] s CtlInvoke show ?thesis
    by (auto simp: req_ok_def processCampaign_frame)
next
  case (Replied x)
  with s v r show ?thesis by (auto simp: req_ok_def)
qed

lemma inv_req:
  assumes v: "invariant w" and j: "j < length (requests w)"
      and s: "req_step now (r_user (requests w ! j)) (r_campaign (requests w ! j))
                (r_pc (requests w ! j)) w = (p', w')"
  shows "invariant (w'\<lparr>requests := (requests w')[j := (requests w ! j)\<lparr>r_pc := p'\<rparr>]\<rparr>)"
proof -
  have r: "req_ok w (requests w ! j)" using v j by (simp add: invariant_def reqs_ok_def)
  note a = req_step_inv[OF v r s]
  have "\<forall>k < length ((requests w')[j := (requests w ! j)\<lparr>r_pc := p'\<rparr>]).
          req_ok w' ((requests w')[j := (requests w ! j)\<lparr>r_pc := p'\<rparr>] ! k)"
  proof (intro allI impI)
    fix k assume k: "k < length ((requests w')[j := (requests w ! j)\<lparr>r_pc := p'\<rparr>])"
    show "req_ok w' ((requests w')[j := (requests w ! j)\<lparr>r_pc := p'\<rparr>] ! k)"
    proof (cases "k = j")
      case True
      with k a show ?thesis by simp
    next
      case False
      from k a have "k < length (requests w)" by simp
      with v have "req_ok w (requests w ! k)" by (simp add: invariant_def reqs_ok_def)
      with a have "req_ok w' (requests w ! k)" by (auto intro: req_ok_dom)
      with False a show ?thesis by simp
    qed
  qed
  with a show ?thesis by (auto intro: inv_requests)
qed

lemma inv_new_request:
  assumes v: "invariant w" and p: "p = StartRead \<or> (\<exists>a. p = CtlRead a)"
  shows "invariant (w\<lparr>requests := requests w @ [\<lparr>r_user = user, r_campaign = cid, r_pc = p\<rparr>]\<rparr>)"
proof (rule inv_requests[OF v], intro allI impI)
  fix j assume j: "j < length (requests w @ [\<lparr>r_user = user, r_campaign = cid, r_pc = p\<rparr>])"
  show "req_ok w ((requests w @ [\<lparr>r_user = user, r_campaign = cid, r_pc = p\<rparr>]) ! j)"
  proof (cases "j < length (requests w)")
    case True
    with v show ?thesis by (simp add: invariant_def reqs_ok_def nth_append)
  next
    case False
    with j have "(requests w @ [\<lparr>r_user = user, r_campaign = cid, r_pc = p\<rparr>]) ! j
                   = \<lparr>r_user = user, r_campaign = cid, r_pc = p\<rparr>"
      by (simp add: nth_append)
    with p show ?thesis by (auto simp: req_ok_def)
  qed
qed

lemma inv_sessions: "invariant w \<Longrightarrow> invariant (w\<lparr>sessions := ss\<rparr>)"
  by (simp add: invariant_def guard_ok_def ids_ok_def tasks_ok_def task_ok_def reqs_ok_def req_ok_def
                count_ok_def completed_ok_def log_ok_def)

subsection \<open>Creating a campaign\<close>

definition new_rows :: "ident \<Rightarrow> instance_row \<Rightarrow> nat \<Rightarrow> nat \<Rightarrow> (string \<times> content) list \<Rightarrow> message list" where
  "new_rows iid inst cid now items =
     map (new_row iid inst cid now) (zip [Suc cid ..< Suc cid + length items] items)"

lemma new_row_fields:
  "m_id (new_row iid inst cid now item) = fst item"
  "m_campaignId (new_row iid inst cid now item) = Some cid"
  "m_status (new_row iid inst cid now item) = PENDING"
  by (cases item; simp add: new_row_def)+

lemma new_rows_ids: "map m_id (new_rows iid inst cid now items) = [Suc cid ..< Suc cid + length items]"
proof -
  have "map m_id (new_rows iid inst cid now items)
          = map fst (zip [Suc cid ..< Suc cid + length items] items)"
    by (simp add: new_rows_def new_row_fields comp_def del: upt_Suc)
  also have "\<dots> = [Suc cid ..< Suc cid + length items]"
    by (rule map_fst_zip) (simp only: length_upt add_diff_cancel_left')
  finally show ?thesis .
qed

lemma new_rows_length: "length (new_rows iid inst cid now items) = length items"
  by (simp add: new_rows_def del: upt_Suc)

lemma new_rows_row:
  "r \<in> set (new_rows iid inst cid now items) \<Longrightarrow>
     m_campaignId r = Some cid \<and> m_status r = PENDING \<and> cid < m_id r
     \<and> m_id r < Suc cid + length items"
proof -
  assume r: "r \<in> set (new_rows iid inst cid now items)"
  then have "m_id r \<in> set (map m_id (new_rows iid inst cid now items))" by simp
  then have "m_id r \<in> set [Suc cid ..< Suc cid + length items]" by (simp only: new_rows_ids)
  moreover from r have "m_campaignId r = Some cid \<and> m_status r = PENDING"
    by (auto simp: new_rows_def new_row_fields)
  ultimately show ?thesis by (auto simp del: upt_Suc)
qed

lemma pending_append: "pending k (xs @ ys) = pending k xs + pending k ys"
  by (simp add: pending_def)

lemma pending_new_rows:
  "pending k (new_rows iid inst cid now items) = (if k = cid then length items else 0)"
proof (cases "k = cid")
  case True
  have "filter (is_pending_of cid) (new_rows iid inst cid now items) = new_rows iid inst cid now items"
    by (rule filter_True) (auto simp: is_pending_of_def dest: new_rows_row)
  with True show ?thesis by (simp add: pending_def new_rows_length)
next
  case False
  have "filter (is_pending_of k) (new_rows iid inst cid now items) = []"
    using False by (auto simp: filter_empty_conv is_pending_of_def dest: new_rows_row)
  with False show ?thesis by (simp add: pending_def)
qed

lemma inv_create:
  assumes v: "invariant w"
  shows "invariant (w\<lparr>campaigns := (campaigns w)(next_id w \<mapsto>
                  \<lparr> c_instanceId = iid, status = CPENDING, delay = dl,
                    totalMessages = length items, sentMessages = 0, failedMessages = 0,
                    startedAt = None, completedAt = None \<rparr>),
                messages := messages w @ new_rows iid inst (next_id w) now items,
                next_id := Suc (next_id w) + length items\<rparr>)"
proof -
  let ?cid = "next_id w"
  let ?rows = "new_rows iid inst ?cid now items"
  let ?c = "\<lparr> c_instanceId = iid, status = CPENDING, delay = dl,
                    totalMessages = length items, sentMessages = 0, failedMessages = 0,
                    startedAt = None, completedAt = None \<rparr>"
  let ?w = "w\<lparr>campaigns := (campaigns w)(?cid \<mapsto> ?c), messages := messages w @ ?rows,
              next_id := Suc ?cid + length items\<rparr>"
  have io: "ids_ok w" using v by (simp add: invariant_def)
  have old_id: "\<And>x. x \<in> set (messages w) \<Longrightarrow> m_id x < ?cid" using io by (simp add: ids_ok_def)
  have old_camp: "\<And>x. x \<in> set (messages w) \<Longrightarrow> m_campaignId x \<noteq> Some ?cid"
    using io by (auto simp: ids_ok_def)
  have old_dom: "\<And>k. k \<in> dom (campaigns w) \<Longrightarrow> k < ?cid" using io by (simp add: ids_ok_def)
  have task_cid: "\<And>j. j < length (loops w) \<Longrightarrow> fst (loops w ! j) \<noteq> ?cid"
  proof -
    fix j assume "j < length (loops w)"
    from task_okD[OF v this] have "fst (loops w ! j) \<in> dom (campaigns w)" by (simp add: task_ok_def)
    from old_dom[OF this] show "fst (loops w ! j) \<noteq> ?cid" by simp
  qed
  have p_old: "\<And>k. k \<noteq> ?cid \<Longrightarrow> pending k (messages w @ ?rows) = pending k (messages w)"
    by (simp add: pending_append pending_new_rows)
  have p_new: "pending ?cid (messages w @ ?rows) = length items"
  proof -
    have "pending ?cid (messages w) = 0"
      using old_camp by (auto simp: pending_zero_iff is_pending_of_def)
    then show ?thesis by (simp add: pending_append pending_new_rows)
  qed
  have 0: "guard_ok ?w" using v by (simp add: invariant_def guard_ok_def)
  have 1: "ids_ok ?w"
    unfolding ids_ok_def
  proof (intro conjI)
    have "distinct (map m_id (messages w))" using io by (simp add: ids_ok_def)
    moreover have "\<And>x. x \<in> set (messages w)
                     \<Longrightarrow> m_id x \<notin> set [Suc ?cid ..< Suc ?cid + length items]"
      using old_id by (fastforce simp del: upt_Suc)
    then have "set (map m_id (messages w)) \<inter> set [Suc ?cid ..< Suc ?cid + length items] = {}"
      by auto
    ultimately show "distinct (map m_id (messages ?w))"
      by (simp add: new_rows_ids del: upt_Suc)
  next
    show "\<forall>m \<in> set (messages ?w). m_id m < next_id ?w
            \<and> (\<forall>c. m_campaignId m = Some c \<longrightarrow> c < next_id ?w)"
    proof
      fix m assume "m \<in> set (messages ?w)"
      then have "m \<in> set (messages w) \<or> m \<in> set ?rows" by simp
      then show "m_id m < next_id ?w \<and> (\<forall>c. m_campaignId m = Some c \<longrightarrow> c < next_id ?w)"
      proof
        assume a: "m \<in> set (messages w)"
        with io have "m_id m < ?cid \<and> (\<forall>c. m_campaignId m = Some c \<longrightarrow> c < ?cid)"
          by (simp add: ids_ok_def)
        then show ?thesis by auto
      next
        assume "m \<in> set ?rows"
        from new_rows_row[OF this] show ?thesis by auto
      qed
    qed
  next
    show "\<forall>k \<in> dom (campaigns ?w). k < next_id ?w"
    proof
      fix k assume "k \<in> dom (campaigns ?w)"
      then have "k = ?cid \<or> k \<in> dom (campaigns w)" by auto
      then show "k < next_id ?w"
      proof
        assume "k = ?cid"
        then show ?thesis by simp
      next
        assume "k \<in> dom (campaigns w)"
        from old_dom[OF this] show ?thesis by simp
      qed
    qed
  qed
  have 2: "tasks_ok ?w"
    unfolding tasks_ok_def
  proof (intro allI impI)
    fix j assume "j < length (loops ?w)"
    then have j: "j < length (loops w)" by simp
    note tj = task_okD[OF v j]
    have a: "fst (loops w ! j) \<in> dom (campaigns ?w)" using tj by (simp add: task_ok_def)
    have b: "\<forall>m. held (snd (loops w ! j)) = Some m \<longrightarrow>
               pending_row (messages ?w) (fst (loops w ! j)) (m_id m)"
      using tj by (auto simp: task_ok_def pending_row_def)
    have c: "snd (loops w ! j) = WrCompleted \<longrightarrow> pending (fst (loops w ! j)) (messages ?w) = 0"
      using tj p_old[OF task_cid[OF j]] by (simp add: task_ok_def)
    from a b c show "task_ok ?w (loops ?w ! j)" by (simp add: task_ok_def)
  qed
  have 3: "reqs_ok ?w" using v by (auto simp: invariant_def reqs_ok_def req_ok_def)
  have 4: "count_ok ?w"
    unfolding count_ok_def
  proof (intro allI impI)
    fix k c assume a: "campaigns ?w k = Some c"
    show "sentMessages c + failedMessages c + pending k (messages ?w)
            + cnt (is_owing k) (loops ?w) = totalMessages c"
    proof (cases "k = ?cid")
      case True
      with a have e: "c = ?c" by simp
      have "cnt (is_owing ?cid) (loops w) = 0"
        by (rule cnt_all_false) (use task_cid in \<open>simp add: is_owing_def\<close>)
      with e True p_new show ?thesis by simp
    next
      case False
      with a have "campaigns w k = Some c" by simp
      from count_okD[OF v this] p_old[OF False] show ?thesis by simp
    qed
  qed
  have 5: "completed_ok ?w"
    unfolding completed_ok_def
  proof (intro allI impI)
    fix k c assume a: "campaigns ?w k = Some c \<and> status c = COMPLETED"
    have k: "k \<noteq> ?cid" using a by auto
    with a have "campaigns w k = Some c" "status c = COMPLETED" by simp_all
    from completed_okD[OF v this] p_old[OF k]
    show "pending k (messages ?w) = 0
        \<and> (\<forall>j < length (loops ?w). fst (loops ?w ! j) = k \<longrightarrow> \<not> busy (snd (loops ?w ! j)))"
      by simp
  qed
  have 6: "log_ok ?w"
    unfolding log_ok_def
  proof (intro conjI ballI)
    show "distinct (sent_log ?w)" using v by (simp add: invariant_def log_ok_def)
  next
    fix mid assume "mid \<in> set (sent_log ?w)"
    then have a: "mid \<in> set (sent_log w)" by simp
    note l = log_okD[OF v a]
    from l show "mid < next_id ?w" by simp
    from l have "(\<forall>x \<in> set (messages w). m_id x = mid \<longrightarrow> m_status x \<noteq> PENDING)
                \<or> (\<exists>j < length (loops w). post_send (snd (loops w ! j)) = Some mid)" by simp
    then show "(\<forall>x \<in> set (messages ?w). m_id x = mid \<longrightarrow> m_status x \<noteq> PENDING)
             \<or> (\<exists>j < length (loops ?w). post_send (snd (loops ?w ! j)) = Some mid)"
    proof
      assume n: "\<forall>x \<in> set (messages w). m_id x = mid \<longrightarrow> m_status x \<noteq> PENDING"
      have "\<forall>x \<in> set (messages ?w). m_id x = mid \<longrightarrow> m_status x \<noteq> PENDING"
      proof (intro ballI impI)
        fix x assume x: "x \<in> set (messages ?w)" "m_id x = mid"
        then have "x \<in> set (messages w) \<or> x \<in> set ?rows" by simp
        then show "m_status x \<noteq> PENDING"
        proof
          assume "x \<in> set (messages w)"
          with n x show ?thesis by simp
        next
          assume "x \<in> set ?rows"
          from new_rows_row[OF this] x l show ?thesis by simp
        qed
      qed
      then show ?thesis by simp
    next
      assume "\<exists>j < length (loops w). post_send (snd (loops w ! j)) = Some mid"
      then show ?thesis by simp
    qed
  qed
  show ?thesis using 0 1 2 3 4 5 6 by (simp add: invariant_def)
qed

lemma create_advanced_world:
  "snd (create_advanced user iid dl items now w) = w
   \<or> (\<exists>inst. snd (create_advanced user iid dl items now w)
        = w\<lparr>campaigns := (campaigns w)(next_id w \<mapsto>
                  \<lparr> c_instanceId = iid, status = CPENDING, delay = dl,
                    totalMessages = length items, sentMessages = 0, failedMessages = 0,
                    startedAt = None, completedAt = None \<rparr>),
                messages := messages w @ new_rows iid inst (next_id w) now items,
                next_id := Suc (next_id w) + length items\<rparr>)"
  by (auto simp: create_advanced_def new_rows_def Let_def split: option.splits)

subsection \<open>Every event keeps the invariant\<close>

lemma inv_event: "invariant w \<Longrightarrow> invariant (apply_event e w)"
proof -
  assume v: "invariant w"
  show ?thesis
  proof (cases e)
    case (LoopStep i now reply tie)
    show ?thesis
    proof (cases "i < length (loops w)")
      case True
      obtain cid p where t: "loops w ! i = (cid, p)" by (cases "loops w ! i")
      obtain p' w' where s: "loop_step now reply tie cid p w = (p', w')"
        by (cases "loop_step now reply tie cid p w")
      from inv_loop[OF v True t s] apply_LoopStep[OF True t s] LoopStep show ?thesis by simp
    next
      case False
      with v LoopStep show ?thesis by (simp add: apply_event_def)
    qed
  next
    case (ReqStep j now)
    show ?thesis
    proof (cases "j < length (requests w)")
      case True
      obtain p' w' where s: "req_step now (r_user (requests w ! j)) (r_campaign (requests w ! j))
                (r_pc (requests w ! j)) w = (p', w')"
        by (cases "req_step now (r_user (requests w ! j)) (r_campaign (requests w ! j))
                (r_pc (requests w ! j)) w")
      from inv_req[OF v True s] True s ReqStep show ?thesis
        by (simp add: apply_event_def Let_def)
    next
      case False
      with v ReqStep show ?thesis by (simp add: apply_event_def)
    qed
  next
    case (StartRequest user cid)
    with inv_new_request[OF v, of StartRead user cid] show ?thesis by (simp add: apply_event_def)
  next
    case (ControlRequest user cid a)
    with inv_new_request[OF v, of "CtlRead a" user cid] show ?thesis by (simp add: apply_event_def)
  next
    case (CreateCampaign user iid dl items now)
    from create_advanced_world[of user iid dl items now w] inv_create[OF v, where iid=iid and dl=dl and items=items and now=now] v
    have "invariant (snd (create_advanced user iid dl items now w))" by auto
    with CreateCampaign show ?thesis by (simp add: apply_event_def)
  next
    case (CacheSession iid)
    with v inv_sessions[OF v] show ?thesis
      by (auto simp: apply_event_def split: sum.splits)
  next
    case (Disconnect iid)
    with inv_sessions[OF v] show ?thesis by (simp add: apply_event_def)
  qed
qed

lemma inv_run: "invariant w \<Longrightarrow> invariant (run evs w)"
  unfolding run_def by (induction evs arbitrary: w) (simp_all add: inv_event)

lemma inv_reachable: "invariant (run evs (init insts))"
  by (rule inv_run[OF inv_init])

subsection \<open>What an event does to the guard set and to the counters\<close>

lemma req_step_running:
  "req_step now user cid p w = (p', w') \<Longrightarrow> runningProcessors w \<subseteq> runningProcessors w'"
  by (induction now user cid p w rule: req_step.induct)
     (auto simp: update_campaign_def processCampaign_def split: option.splits sum.splits if_splits)

lemma released_by_finally:
  assumes a: "cid \<in> runningProcessors w" and b: "cid \<notin> runningProcessors (apply_event e w)"
  shows "\<exists>i now reply tie r. e = LoopStep i now reply tie \<and> i < length (loops w)
           \<and> loops w ! i = (cid, Finally r) \<and> loops (apply_event e w) ! i = (cid, Done r)"
proof (cases e)
  case (LoopStep i now reply tie)
  show ?thesis
  proof (cases "i < length (loops w)")
    case True
    obtain k p where t: "loops w ! i = (k, p)" by (cases "loops w ! i")
    obtain p' w' where s: "loop_step now reply tie k p w = (p', w')"
      by (cases "loop_step now reply tie k p w")
    note f = loop_step_frame[OF s]
    have ev: "apply_event e w = after_loop i k p' w'"
      using apply_LoopStep[OF True t s] LoopStep by simp
    have r: "runningProcessors (apply_event e w) =
               (if \<exists>r. p = Finally r then runningProcessors w - {k} else runningProcessors w)"
      using f by (simp add: ev after_loop_def)
    from a b r obtain r0 where p: "p = Finally r0" and k: "k = cid"
      by (auto split: if_splits)
    from s p have "p' = Done r0" by simp
    then have "loops (apply_event e w) ! i = (cid, Done r0)"
      using True f k by (simp add: ev after_loop_def)
    with LoopStep True t p k show ?thesis by blast
  next
    case False
    with a b LoopStep show ?thesis by (simp add: apply_event_def)
  qed
next
  case (ReqStep j now)
  show ?thesis
  proof (cases "j < length (requests w)")
    case True
    obtain p' w' where s: "req_step now (r_user (requests w ! j)) (r_campaign (requests w ! j))
                (r_pc (requests w ! j)) w = (p', w')"
      by (cases "req_step now (r_user (requests w ! j)) (r_campaign (requests w ! j))
                (r_pc (requests w ! j)) w")
    from req_step_running[OF s] a have "cid \<in> runningProcessors w'" by auto
    with b True s ReqStep show ?thesis by (simp add: apply_event_def Let_def)
  next
    case False
    with a b ReqStep show ?thesis by (simp add: apply_event_def)
  qed
next
  case (StartRequest user k)
  with a b show ?thesis by (simp add: apply_event_def)
next
  case (ControlRequest user k x)
  with a b show ?thesis by (simp add: apply_event_def)
next
  case (CreateCampaign user iid dl items now)
  with a b show ?thesis
    by (auto simp: apply_event_def create_advanced_def Let_def split: option.splits if_splits)
next
  case (CacheSession iid)
  with a b show ?thesis by (auto simp: apply_event_def split: sum.splits)
next
  case (Disconnect iid)
  with a b show ?thesis by (simp add: apply_event_def)
qed

lemma loop_step_counters:
  "loop_step now reply tie cid p w = (p', w') \<Longrightarrow> campaigns w k = Some c \<Longrightarrow>
     \<exists>c'. campaigns w' k = Some c' \<and> totalMessages c' = totalMessages c
        \<and> sentMessages c \<le> sentMessages c' \<and> failedMessages c \<le> failedMessages c'"
  by (induction now reply tie cid p w rule: loop_step.induct)
     (auto simp: update_campaign_def update_message_def Let_def
           split: option.splits if_splits prod.splits sum.splits)

lemma event_counters:
  assumes v: "invariant w" and c: "campaigns w k = Some c"
  shows "\<exists>c'. campaigns (apply_event e w) k = Some c' \<and> totalMessages c' = totalMessages c
           \<and> sentMessages c \<le> sentMessages c' \<and> failedMessages c \<le> failedMessages c'"
proof (cases e)
  case (LoopStep i now reply tie)
  show ?thesis
  proof (cases "i < length (loops w)")
    case True
    obtain cid p where t: "loops w ! i = (cid, p)" by (cases "loops w ! i")
    obtain p' w' where s: "loop_step now reply tie cid p w = (p', w')"
      by (cases "loop_step now reply tie cid p w")
    from loop_step_counters[OF s c] apply_LoopStep[OF True t s] LoopStep
    show ?thesis by (simp add: after_loop_def)
  next
    case False
    with c LoopStep show ?thesis by (simp add: apply_event_def)
  qed
next
  case (ReqStep j now)
  show ?thesis
  proof (cases "j < length (requests w)")
    case True
    obtain p' w' where s: "req_step now (r_user (requests w ! j)) (r_campaign (requests w ! j))
                (r_pc (requests w ! j)) w = (p', w')"
      by (cases "req_step now (r_user (requests w ! j)) (r_campaign (requests w ! j))
                (r_pc (requests w ! j)) w")
    from req_step_frame[OF s, of k] c True s ReqStep show ?thesis
      by (auto simp: apply_event_def Let_def)
  next
    case False
    with c ReqStep show ?thesis by (simp add: apply_event_def)
  qed
next
  case (StartRequest user x)
  with c show ?thesis by (simp add: apply_event_def)
next
  case (ControlRequest user x y)
  with c show ?thesis by (simp add: apply_event_def)
next
  case (CreateCampaign user iid dl items now)
  have "k \<in> dom (campaigns w)" using c by auto
  then have "k \<noteq> next_id w" using v by (auto simp: invariant_def ids_ok_def)
  with c CreateCampaign show ?thesis
    by (auto simp: apply_event_def create_advanced_def Let_def split: option.splits if_splits)
next
  case (CacheSession iid)
  with c show ?thesis by (auto simp: apply_event_def split: sum.splits)
next
  case (Disconnect iid)
  with c show ?thesis by (simp add: apply_event_def)
qed

lemma created_campaign:
  "fst (create_advanced user iid dl items now w) = Created k \<Longrightarrow>
     \<exists>c. campaigns (snd (create_advanced user iid dl items now w)) k = Some c
        \<and> totalMessages c = length items \<and> sentMessages c = 0 \<and> failedMessages c = 0
        \<and> status c = CPENDING"
  by (auto simp: create_advanced_def Let_def split: option.splits if_splits)

lemma reachable_counters:
  assumes c: "campaigns (run evs (init insts)) k = Some c"
  shows "sentMessages c + failedMessages c \<le> totalMessages c
         \<and> (status c = COMPLETED \<longrightarrow> sentMessages c + failedMessages c = totalMessages c)"
proof -
  note v = inv_reachable[of evs insts]
  from count_okD[OF v c] have le: "sentMessages c + failedMessages c \<le> totalMessages c" by simp
  have "status c = COMPLETED \<longrightarrow> sentMessages c + failedMessages c = totalMessages c"
  proof
    assume s: "status c = COMPLETED"
    note b = completed_okD[OF v c s]
    have "cnt (is_owing k) (loops (run evs (init insts))) = 0"
      by (rule cnt_all_false) (use b in \<open>auto simp: is_owing_def busy_def\<close>)
    with count_okD[OF v c] b show "sentMessages c + failedMessages c = totalMessages c" by simp
  qed
  with le show ?thesis by simp
qed

lemma reachable_guard:
  "cnt (is_active cid) (loops (run evs (init insts))) \<le> 1
   \<and> (cnt (is_active cid) (loops (run evs (init insts))) = 1
        \<longleftrightarrow> cid \<in> runningProcessors (run evs (init insts)))"
  using inv_reachable[of evs insts] by (simp add: invariant_def guard_ok_def)

lemma reachable_log: "distinct (sent_log (run evs (init insts)))"
  using inv_reachable[of evs insts] by (simp add: invariant_def log_ok_def)

text \<open>
  Claim C2. In every state the system can reach, however the runs and the requests are
  interleaved, each campaign id has at most one run of \<open>processCampaign\<close> that is not
  over, and it has one exactly when the id is in \<open>runningProcessors\<close>. Calling
  \<open>processCampaign\<close> for an id that is in the set changes nothing (no run starts, nothing
  is sent). No message is handed to the provider twice. An id leaves the set only by
  the \<open>finally\<close> step of its run, which ends the run.
\<close>

theorem one_active_loop_per_campaign:
  "cnt (is_active cid) (loops (run evs (init insts))) \<le> 1
   \<and> (cnt (is_active cid) (loops (run evs (init insts))) = 1
        \<longleftrightarrow> cid \<in> runningProcessors (run evs (init insts)))
   \<and> (cid \<in> runningProcessors w \<longrightarrow> processCampaign cid w = w)
   \<and> distinct (sent_log (run evs (init insts)))
   \<and> (cid \<in> runningProcessors w \<and> cid \<notin> runningProcessors (apply_event e w) \<longrightarrow>
        (\<exists>i now reply tie r. e = LoopStep i now reply tie \<and> i < length (loops w)
           \<and> loops w ! i = (cid, Finally r) \<and> loops (apply_event e w) ! i = (cid, Done r)))"
  using reachable_guard[of cid evs insts] reachable_log[of evs insts]
        released_by_finally[of cid w e]
  by (simp add: processCampaign_def)

text \<open>
  Claim C3. In every state the system can reach, a campaign's sent and failed counters
  add up to at most its total, and to exactly its total once its status is COMPLETED.
  No event changes the total or lowers a counter (while RUNNING or in any other status).
  Either endpoint creates a campaign with its total equal to the number of its messages
  and both counters at zero.
\<close>

theorem campaign_counters_bounded:
  "(campaigns (run evs (init insts)) k = Some c \<longrightarrow>
      sentMessages c + failedMessages c \<le> totalMessages c
      \<and> (status c = COMPLETED \<longrightarrow> sentMessages c + failedMessages c = totalMessages c)
      \<and> (\<exists>c'. campaigns (apply_event e (run evs (init insts))) k = Some c'
            \<and> totalMessages c' = totalMessages c
            \<and> sentMessages c \<le> sentMessages c' \<and> failedMessages c \<le> failedMessages c'))
   \<and> (fst (create_advanced user iid dl items now w) = Created j \<longrightarrow>
        (\<exists>c. campaigns (snd (create_advanced user iid dl items now w)) j = Some c
           \<and> totalMessages c = length items \<and> sentMessages c = 0 \<and> failedMessages c = 0
           \<and> status c = CPENDING))
   \<and> (fst (create_simple user iid dl ct recipients now w) = Created j \<longrightarrow>
        (\<exists>c. campaigns (snd (create_simple user iid dl ct recipients now w)) j = Some c
           \<and> totalMessages c = length recipients \<and> sentMessages c = 0
           \<and> failedMessages c = 0 \<and> status c = CPENDING))"
proof -
  have 1: "campaigns (run evs (init insts)) k = Some c \<longrightarrow>
      sentMessages c + failedMessages c \<le> totalMessages c
      \<and> (status c = COMPLETED \<longrightarrow> sentMessages c + failedMessages c = totalMessages c)
      \<and> (\<exists>c'. campaigns (apply_event e (run evs (init insts))) k = Some c'
            \<and> totalMessages c' = totalMessages c
            \<and> sentMessages c \<le> sentMessages c' \<and> failedMessages c \<le> failedMessages c')"
    using reachable_counters[of evs insts k c]
          event_counters[OF inv_reachable[of evs insts], of k c e]
    by blast
  have 2: "fst (create_advanced user iid dl items now w) = Created j \<longrightarrow>
        (\<exists>c. campaigns (snd (create_advanced user iid dl items now w)) j = Some c
           \<and> totalMessages c = length items \<and> sentMessages c = 0 \<and> failedMessages c = 0
           \<and> status c = CPENDING)"
    using created_campaign[of user iid dl items now w j] by blast
  have 3: "fst (create_simple user iid dl ct recipients now w) = Created j \<longrightarrow>
        (\<exists>c. campaigns (snd (create_simple user iid dl ct recipients now w)) j = Some c
           \<and> totalMessages c = length recipients \<and> sentMessages c = 0
           \<and> failedMessages c = 0 \<and> status c = CPENDING)"
    using created_campaign[of user iid dl "map (\<lambda>to. (to, ct)) recipients" now w j]
    by (simp add: create_simple_def)
  from 1 2 3 show ?thesis by (intro conjI)
qed

subsection \<open>Two start requests racing, then the run to its end\<close>

definition accepted :: provider_reply where
  "accepted = Reply True None ''OK''"

text \<open>
  Two start requests for the same campaign, their steps alternating: both read the
  campaign while it is PENDING, both write RUNNING, both call \<open>processCampaign\<close>.
\<close>

definition race_events :: "event list" where
  "race_events =
     [CacheSession ''i1'',
      CreateCampaign ''u1'' ''i1'' 1000 [(''5511'', demo_content), (''5522'', demo_content)] 7,
      StartRequest ''u1'' 0, StartRequest ''u1'' 0,
      ReqStep 0 8, ReqStep 1 8, ReqStep 0 8, ReqStep 1 8,
      ReqStep 0 8, ReqStep 1 8, ReqStep 0 9, ReqStep 1 9]"

text \<open>
  The run then sends the first message, has the second rejected, finds nothing left and
  writes COMPLETED; its \<open>finally\<close> step is still to come.
\<close>

definition send_events :: "event list" where
  "send_events =
     replicate 7 (LoopStep 0 10 accepted 0) @ replicate 7 (LoopStep 0 11 rejected 0)
     @ replicate 4 (LoopStep 0 12 accepted 0)"

definition demo_final :: campaign where
  "demo_final = \<lparr> c_instanceId = ''i1'', status = COMPLETED, delay = 1000, totalMessages = 2,
     sentMessages = 1, failedMessages = 1, startedAt = Some 8, completedAt = Some 12 \<rparr>"

lemma race_loops: "loops (run race_events demo_init) = [(0, Load)]"
  by code_simp

lemma race_replies:
  "map r_pc (requests (run race_events demo_init)) = [Replied (Inr ()), Replied (Inr ())]"
  by code_simp

lemma race_running: "0 \<in> runningProcessors (run race_events demo_init)"
  by code_simp

lemma end_log: "sent_log (run (race_events @ send_events) demo_init) = [1, 2]"
  by code_simp

lemma end_campaign: "campaigns (run (race_events @ send_events) demo_init) 0 = Some demo_final"
  by code_simp

lemma end_running: "0 \<in> runningProcessors (run (race_events @ send_events) demo_init)"
  by code_simp

lemma end_released:
  "0 \<notin> runningProcessors
          (apply_event (LoopStep 0 13 accepted 0) (run (race_events @ send_events) demo_init))"
  by code_simp

lemma end_loops: "loops (run (race_events @ send_events) demo_init) = [(0, Finally None)]"
  by code_simp

theorem one_active_loop_per_campaign_witness:
  "loops (run race_events demo_init) = [(0, Load)]
   \<and> map r_pc (requests (run race_events demo_init)) = [Replied (Inr ()), Replied (Inr ())]
   \<and> 0 \<in> runningProcessors (run race_events demo_init)
   \<and> cnt (is_active 0) (loops (run race_events demo_init)) = 1
   \<and> processCampaign 0 (run race_events demo_init) = run race_events demo_init
   \<and> sent_log (run (race_events @ send_events) demo_init) = [1, 2]
   \<and> distinct (sent_log (run (race_events @ send_events) demo_init))
   \<and> 0 \<in> runningProcessors (run (race_events @ send_events) demo_init)
   \<and> 0 \<notin> runningProcessors
          (apply_event (LoopStep 0 13 accepted 0) (run (race_events @ send_events) demo_init))
   \<and> (\<exists>i now reply tie r. LoopStep 0 13 accepted 0 = LoopStep i now reply tie
         \<and> i < length (loops (run (race_events @ send_events) demo_init))
         \<and> loops (run (race_events @ send_events) demo_init) ! i = (0, Finally r)
         \<and> loops (apply_event (LoopStep 0 13 accepted 0)
                    (run (race_events @ send_events) demo_init)) ! i = (0, Done r))"
proof -
  note a = one_active_loop_per_campaign
             [of 0 race_events "[''i1'' \<mapsto> demo_instance]" "run race_events demo_init"
                 "LoopStep 0 13 accepted 0"]
  note b = one_active_loop_per_campaign
             [of 0 "race_events @ send_events" "[''i1'' \<mapsto> demo_instance]"
                 "run (race_events @ send_events) demo_init" "LoopStep 0 13 accepted 0"]
  have 1: "cnt (is_active 0) (loops (run race_events demo_init)) = 1"
    using a race_running by (simp add: demo_init_def)
  have 2: "processCampaign 0 (run race_events demo_init) = run race_events demo_init"
    using a race_running by simp
  have 3: "distinct (sent_log (run (race_events @ send_events) demo_init))"
    using b by (simp add: demo_init_def)
  have 4: "\<exists>i now reply tie r. LoopStep 0 13 accepted 0 = LoopStep i now reply tie
         \<and> i < length (loops (run (race_events @ send_events) demo_init))
         \<and> loops (run (race_events @ send_events) demo_init) ! i = (0, Finally r)
         \<and> loops (apply_event (LoopStep 0 13 accepted 0)
                    (run (race_events @ send_events) demo_init)) ! i = (0, Done r)"
    using b end_running end_released by simp
  show ?thesis
    using race_loops race_replies race_running 1 2 end_log 3 end_running end_released 4
    by simp
qed

lemma demo_created:
  "fst (create_advanced ''u1'' ''i1'' 1000 [(''5511'', demo_content), (''5522'', demo_content)] 7
          demo_init) = Created 0"
  by code_simp

lemma demo_created_simple:
  "fst (create_simple ''u1'' ''i1'' 1000 demo_content [''5511'', ''5522''] 7 demo_init) = Created 0"
  by code_simp

theorem campaign_counters_bounded_witness:
  "campaigns (run (race_events @ send_events) demo_init) 0 = Some demo_final
   \<and> status demo_final = COMPLETED
   \<and> sentMessages demo_final + failedMessages demo_final = totalMessages demo_final
   \<and> (\<exists>c'. campaigns (apply_event (LoopStep 0 13 accepted 0)
                         (run (race_events @ send_events) demo_init)) 0 = Some c'
          \<and> totalMessages c' = totalMessages demo_final
          \<and> sentMessages demo_final \<le> sentMessages c'
          \<and> failedMessages demo_final \<le> failedMessages c')
   \<and> fst (create_advanced ''u1'' ''i1'' 1000 [(''5511'', demo_content), (''5522'', demo_content)] 7
            demo_init) = Created 0
   \<and> (\<exists>c. campaigns (snd (create_advanced ''u1'' ''i1'' 1000
                              [(''5511'', demo_content), (''5522'', demo_content)] 7 demo_init)) 0
               = Some c
          \<and> totalMessages c = length [(''5511'', demo_content), (''5522'', demo_content)]
          \<and> sentMessages c = 0 \<and> failedMessages c = 0 \<and> status c = CPENDING)
   \<and> fst (create_simple ''u1'' ''i1'' 1000 demo_content [''5511'', ''5522''] 7 demo_init)
       = Created 0
   \<and> (\<exists>c. campaigns (snd (create_simple ''u1'' ''i1'' 1000 demo_content [''5511'', ''5522''] 7
                              demo_init)) 0 = Some c
          \<and> totalMessages c = length [''5511'', ''5522'']
          \<and> sentMessages c = 0 \<and> failedMessages c = 0 \<and> status c = CPENDING)"
proof -
  note a = campaign_counters_bounded
             [where evs = "race_events @ send_events" and insts = "[''i1'' \<mapsto> demo_instance]"
                and k = 0 and c = demo_final and e = "LoopStep 0 13 accepted 0"
                and user = "''u1''" and iid = "''i1''" and dl = 1000
                and items = "[(''5511'', demo_content), (''5522'', demo_content)]"
                and now = 7 and w = demo_init and j = 0
                and ct = demo_content and recipients = "[''5511'', ''5522'']"]
  have s: "status demo_final = COMPLETED" by (simp add: demo_final_def)
  have c: "campaigns (run (race_events @ send_events) (init [''i1'' \<mapsto> demo_instance])) 0
             = Some demo_final"
    using end_campaign by (simp add: demo_init_def)
  from a c s demo_created demo_created_simple end_campaign show ?thesis
    by (simp add: demo_init_def)
qed

section \<open>The control endpoints among the other requests and runs\<close>

lemma ctl_read_accepts:
  assumes "find_owned_campaign w user cid = Some c" and "valid_from a (status c)"
  shows "req_step now user cid (CtlRead a) w = (CtlWrite a (target a), w)"
  using assms by (simp add: control_check_valid)

lemma ctl_read_rejects:
  assumes "\<not> (\<exists>c. find_owned_campaign w user cid = Some c \<and> valid_from a (status c))"
  shows "\<exists>e. req_step now user cid (CtlRead a) w = (Replied (Inl e), w) \<and> is_client_error e"
proof (cases "find_owned_campaign w user cid")
  case None
  then show ?thesis by (simp add: control_check_def is_client_error_def)
next
  case (Some c)
  with assms have "\<not> valid_from a (status c)" by simp
  with Some show ?thesis by (simp add: control_check_valid is_client_error_def)
qed

lemma ctl_write_step:
  assumes "campaigns w cid = Some c"
  shows "req_step now user cid (CtlWrite a st) w
           = (if a = resume then CtlInvoke else Replied (Inr ()),
              write_campaign cid (c\<lparr>status := st\<rparr>) w)"
  using assms by (simp add: update_campaign_def write_campaign_def)

lemma start_check_accepts:
  assumes "status c = CPENDING" and "getStatus (sessions w) (c_instanceId c) = connected"
  shows "req_step now user cid (StartCheck (Some c)) w = (StartWrite, w)"
  using assms by (simp add: start_check_def)

lemma start_check_rejects:
  assumes "\<not> (\<exists>c. found = Some c \<and> status c = CPENDING
                  \<and> getStatus (sessions w) (c_instanceId c) = connected)"
  shows "\<exists>e. req_step now user cid (StartCheck found) w = (Replied (Inl e), w)
              \<and> is_client_error e"
proof (cases found)
  case None
  then show ?thesis by (simp add: start_check_def is_client_error_def)
next
  case (Some c)
  with assms have "status c \<noteq> CPENDING \<or> getStatus (sessions w) (c_instanceId c) \<noteq> connected"
    by simp
  with Some show ?thesis by (auto simp: start_check_def is_client_error_def)
qed

lemma start_write_step:
  assumes "campaigns w cid = Some c"
  shows "req_step now user cid StartWrite w
           = (StartInvoke, write_campaign cid (c\<lparr>status := RUNNING, startedAt := Some now\<rparr>) w)"
  using assms by (simp add: update_campaign_def write_campaign_def)

text \<open>After a call of \<open>processCampaign\<close> the campaign has its run: a new one, or the one it had.\<close>

lemma processCampaign_runs:
  assumes g: "guard_ok w"
  shows "cid \<in> runningProcessors (processCampaign cid w)
         \<and> cnt (is_active cid) (loops (processCampaign cid w)) = 1
         \<and> (cid \<notin> runningProcessors w \<longrightarrow>
              loops (processCampaign cid w) = loops w @ [(cid, Load)])"
proof -
  have 1: "cid \<in> runningProcessors (processCampaign cid w)" by (simp add: processCampaign_def)
  have "guard_ok (processCampaign cid w)" using g by (rule guard_processCampaign)
  with 1 have 2: "cnt (is_active cid) (loops (processCampaign cid w)) = 1"
    by (simp add: guard_ok_def)
  have 3: "cid \<notin> runningProcessors w \<longrightarrow>
              loops (processCampaign cid w) = loops w @ [(cid, Load)]"
    by (simp add: processCampaign_def)
  from 1 2 3 show ?thesis by simp
qed

lemma guard_write_campaign: "guard_ok (write_campaign cid c w) = guard_ok w"
  by (simp add: guard_ok_def write_campaign_def)

lemma reachable_guard_ok: "guard_ok (run evs (init insts))"
  using inv_reachable[of evs insts] by (simp add: invariant_def)

lemma resume_runs:
  assumes f: "find_owned_campaign w user cid = Some c" and p: "status c = PAUSED"
      and g: "guard_ok w"
  shows "fst (control_handler now user cid resume w) = Inr ()
         \<and> campaigns (snd (control_handler now user cid resume w)) cid
             = Some (c\<lparr>status := RUNNING\<rparr>)
         \<and> cid \<in> runningProcessors (snd (control_handler now user cid resume w))
         \<and> cnt (is_active cid) (loops (snd (control_handler now user cid resume w))) = 1
         \<and> (cid \<notin> runningProcessors w \<longrightarrow>
              loops (snd (control_handler now user cid resume w)) = loops w @ [(cid, Load)])"
proof -
  let ?w1 = "write_campaign cid (c\<lparr>status := RUNNING\<rparr>) w"
  have v: "valid_from resume (status c)" using p by (simp add: valid_from_def)
  have h: "control_handler now user cid resume w = (Inr (), processCampaign cid ?w1)"
    using control_handler_accepts[OF f v, of now] by (simp add: target_def)
  have g1: "guard_ok ?w1" using g by (simp add: guard_write_campaign)
  have w1: "loops ?w1 = loops w" "runningProcessors ?w1 = runningProcessors w"
           "campaigns ?w1 cid = Some (c\<lparr>status := RUNNING\<rparr>)"
    by (simp_all add: write_campaign_def)
  have c1: "campaigns (processCampaign cid ?w1) cid = Some (c\<lparr>status := RUNNING\<rparr>)"
    using w1(3) by (simp add: processCampaign_frame)
  from processCampaign_runs[OF g1, of cid] c1 show ?thesis
    unfolding h by (simp add: w1)
qed

lemma start_runs:
  assumes f: "find_owned_campaign w user cid = Some c" and p: "status c = CPENDING"
      and s: "getStatus (sessions w) (c_instanceId c) = connected"
      and g: "guard_ok w"
  shows "fst (start_handler now user cid w) = Inr ()
         \<and> campaigns (snd (start_handler now user cid w)) cid
             = Some (c\<lparr>status := RUNNING, startedAt := Some now\<rparr>)
         \<and> cid \<in> runningProcessors (snd (start_handler now user cid w))
         \<and> cnt (is_active cid) (loops (snd (start_handler now user cid w))) = 1
         \<and> (cid \<notin> runningProcessors w \<longrightarrow>
              loops (snd (start_handler now user cid w)) = loops w @ [(cid, Load)])"
proof -
  let ?w1 = "write_campaign cid (c\<lparr>status := RUNNING, startedAt := Some now\<rparr>) w"
  have h: "start_handler now user cid w = (Inr (), processCampaign cid ?w1)"
    by (rule start_handler_accepts[OF f p s])
  have g1: "guard_ok ?w1" using g by (simp add: guard_write_campaign)
  have w1: "loops ?w1 = loops w" "runningProcessors ?w1 = runningProcessors w"
           "campaigns ?w1 cid = Some (c\<lparr>status := RUNNING, startedAt := Some now\<rparr>)"
    by (simp_all add: write_campaign_def)
  have c1: "campaigns (processCampaign cid ?w1) cid
              = Some (c\<lparr>status := RUNNING, startedAt := Some now\<rparr>)"
    using w1(3) by (simp add: processCampaign_frame)
  from processCampaign_runs[OF g1, of cid] c1 show ?thesis
    unfolding h by (simp add: w1)
qed

text \<open>
  Claim C4, as amended. A control action is checked against the status the handler
  reads at the start of the request: pause passes only when that status is RUNNING,
  resume only when it is PAUSED, cancel only when it is PENDING, RUNNING or PAUSED; start
  passes only when it is PENDING and the instance reports connected at that moment.
  A request that does not pass is answered with a 4xx error and writes nothing. A
  request that passes goes on to write its target status (PAUSED, RUNNING, CANCELLED;
  RUNNING with the start time for start) over whatever the status is by then, and resume
  and start then call \<open>processCampaign\<close>. No request passes on a status read as CANCELLED
  or COMPLETED. When nothing else takes a step between the read and the write, the
  status checked is the status replaced: the handler carries out exactly the valid
  transitions and leaves the state unchanged otherwise. In every reachable state an
  accepted resume or start leaves the campaign with exactly one active run of the
  dispatch loop, a new one when it had none.
\<close>

theorem control_actions_validated:
  "(find_owned_campaign w user cid = Some c \<and> valid_from a (status c) \<longrightarrow>
      req_step now user cid (CtlRead a) w = (CtlWrite a (target a), w)
      \<and> control_handler now user cid a w =
          (Inr (), (if a = resume then processCampaign cid else id)
                     (write_campaign cid (c\<lparr>status := target a\<rparr>) w)))
   \<and> (\<not> (\<exists>c. find_owned_campaign w user cid = Some c \<and> valid_from a (status c)) \<longrightarrow>
        (\<exists>e. req_step now user cid (CtlRead a) w = (Replied (Inl e), w) \<and> is_client_error e)
        \<and> (\<exists>e. control_handler now user cid a w = (Inl e, w) \<and> is_client_error e))
   \<and> (campaigns w cid = Some c \<longrightarrow>
        req_step now user cid (CtlWrite a st) w
          = (if a = resume then CtlInvoke else Replied (Inr ()),
             write_campaign cid (c\<lparr>status := st\<rparr>) w)
        \<and> req_step now user cid StartWrite w
          = (StartInvoke, write_campaign cid (c\<lparr>status := RUNNING, startedAt := Some now\<rparr>) w))
   \<and> req_step now user cid CtlInvoke w = (Replied (Inr ()), processCampaign cid w)
   \<and> req_step now user cid StartInvoke w = (Replied (Inr ()), processCampaign cid w)
   \<and> req_step now user cid StartRead w = (StartCheck (find_owned_campaign w user cid), w)
   \<and> (find_owned_campaign w user cid = Some c \<and> status c = CPENDING
        \<and> getStatus (sessions w) (c_instanceId c) = connected \<longrightarrow>
      req_step now user cid (StartCheck (Some c)) w = (StartWrite, w)
      \<and> start_handler now user cid w =
          (Inr (), processCampaign cid
                     (write_campaign cid (c\<lparr>status := RUNNING, startedAt := Some now\<rparr>) w)))
   \<and> (\<not> (\<exists>c. find_owned_campaign w user cid = Some c \<and> status c = CPENDING
              \<and> getStatus (sessions w) (c_instanceId c) = connected) \<longrightarrow>
        (\<exists>e. req_step now user cid (StartCheck (find_owned_campaign w user cid)) w
                = (Replied (Inl e), w) \<and> is_client_error e)
        \<and> (\<exists>e. start_handler now user cid w = (Inl e, w) \<and> is_client_error e))
   \<and> (valid_from pause st' \<longleftrightarrow> st' = RUNNING)
   \<and> (valid_from resume st' \<longleftrightarrow> st' = PAUSED)
   \<and> (valid_from cancel st' \<longleftrightarrow> st' = CPENDING \<or> st' = RUNNING \<or> st' = PAUSED)
   \<and> target pause = PAUSED \<and> target resume = RUNNING \<and> target cancel = CANCELLED
   \<and> \<not> valid_from a CANCELLED \<and> \<not> valid_from a COMPLETED
   \<and> (find_owned_campaign (run evs (init insts)) user cid = Some c \<and> status c = PAUSED \<longrightarrow>
        fst (control_handler now user cid resume (run evs (init insts))) = Inr ()
        \<and> campaigns (snd (control_handler now user cid resume (run evs (init insts)))) cid
            = Some (c\<lparr>status := RUNNING\<rparr>)
        \<and> cid \<in> runningProcessors (snd (control_handler now user cid resume (run evs (init insts))))
        \<and> cnt (is_active cid)
              (loops (snd (control_handler now user cid resume (run evs (init insts))))) = 1
        \<and> (cid \<notin> runningProcessors (run evs (init insts)) \<longrightarrow>
             loops (snd (control_handler now user cid resume (run evs (init insts))))
               = loops (run evs (init insts)) @ [(cid, Load)]))
   \<and> (find_owned_campaign (run evs (init insts)) user cid = Some c \<and> status c = CPENDING
        \<and> getStatus (sessions (run evs (init insts))) (c_instanceId c) = connected \<longrightarrow>
        fst (start_handler now user cid (run evs (init insts))) = Inr ()
        \<and> campaigns (snd (start_handler now user cid (run evs (init insts)))) cid
            = Some (c\<lparr>status := RUNNING, startedAt := Some now\<rparr>)
        \<and> cid \<in> runningProcessors (snd (start_handler now user cid (run evs (init insts))))
        \<and> cnt (is_active cid) (loops (snd (start_handler now user cid (run evs (init insts))))) = 1
        \<and> (cid \<notin> runningProcessors (run evs (init insts)) \<longrightarrow>
             loops (snd (start_handler now user cid (run evs (init insts))))
               = loops (run evs (init insts)) @ [(cid, Load)]))"
proof -
  have 1: "find_owned_campaign w user cid = Some c \<and> valid_from a (status c) \<longrightarrow>
      req_step now user cid (CtlRead a) w = (CtlWrite a (target a), w)
      \<and> control_handler now user cid a w =
          (Inr (), (if a = resume then processCampaign cid else id)
                     (write_campaign cid (c\<lparr>status := target a\<rparr>) w))"
    using ctl_read_accepts[of w user cid c a now] control_handler_accepts[of w user cid c a now]
    by blast
  have 2: "\<not> (\<exists>c. find_owned_campaign w user cid = Some c \<and> valid_from a (status c)) \<longrightarrow>
        (\<exists>e. req_step now user cid (CtlRead a) w = (Replied (Inl e), w) \<and> is_client_error e)
        \<and> (\<exists>e. control_handler now user cid a w = (Inl e, w) \<and> is_client_error e)"
    using ctl_read_rejects[of w user cid a now] control_handler_rejects[of w user cid a now]
    by blast
  have 3: "campaigns w cid = Some c \<longrightarrow>
        req_step now user cid (CtlWrite a st) w
          = (if a = resume then CtlInvoke else Replied (Inr ()),
             write_campaign cid (c\<lparr>status := st\<rparr>) w)
        \<and> req_step now user cid StartWrite w
          = (StartInvoke, write_campaign cid (c\<lparr>status := RUNNING, startedAt := Some now\<rparr>) w)"
    using ctl_write_step[of w cid c now user a st] start_write_step[of w cid c now user]
    by blast
  have 4: "req_step now user cid CtlInvoke w = (Replied (Inr ()), processCampaign cid w)"
          "req_step now user cid StartInvoke w = (Replied (Inr ()), processCampaign cid w)"
          "req_step now user cid StartRead w = (StartCheck (find_owned_campaign w user cid), w)"
    by simp_all
  have 5: "find_owned_campaign w user cid = Some c \<and> status c = CPENDING
        \<and> getStatus (sessions w) (c_instanceId c) = connected \<longrightarrow>
      req_step now user cid (StartCheck (Some c)) w = (StartWrite, w)
      \<and> start_handler now user cid w =
          (Inr (), processCampaign cid
                     (write_campaign cid (c\<lparr>status := RUNNING, startedAt := Some now\<rparr>) w))"
    using start_check_accepts[of c w now user cid] start_handler_accepts[of w user cid c now]
    by blast
  have 6: "\<not> (\<exists>c. find_owned_campaign w user cid = Some c \<and> status c = CPENDING
              \<and> getStatus (sessions w) (c_instanceId c) = connected) \<longrightarrow>
        (\<exists>e. req_step now user cid (StartCheck (find_owned_campaign w user cid)) w
                = (Replied (Inl e), w) \<and> is_client_error e)
        \<and> (\<exists>e. start_handler now user cid w = (Inl e, w) \<and> is_client_error e)"
    using start_check_rejects[of "find_owned_campaign w user cid" w now user cid]
          start_handler_rejects[of w user cid now]
    by blast
  have 7: "(valid_from pause st' \<longleftrightarrow> st' = RUNNING)"
          "(valid_from resume st' \<longleftrightarrow> st' = PAUSED)"
          "(valid_from cancel st' \<longleftrightarrow> st' = CPENDING \<or> st' = RUNNING \<or> st' = PAUSED)"
          "target pause = PAUSED" "target resume = RUNNING" "target cancel = CANCELLED"
    by (simp_all add: valid_from_def target_def)
  have 8: "\<not> valid_from a CANCELLED" "\<not> valid_from a COMPLETED"
    by (cases a; simp add: valid_from_def)+
  note g = reachable_guard_ok[of evs insts]
  have 9: "find_owned_campaign (run evs (init insts)) user cid = Some c \<and> status c = PAUSED \<longrightarrow>
        fst (control_handler now user cid resume (run evs (init insts))) = Inr ()
        \<and> campaigns (snd (control_handler now user cid resume (run evs (init insts)))) cid
            = Some (c\<lparr>status := RUNNING\<rparr>)
        \<and> cid \<in> runningProcessors (snd (control_handler now user cid resume (run evs (init insts))))
        \<and> cnt (is_active cid)
              (loops (snd (control_handler now user cid resume (run evs (init insts))))) = 1
        \<and> (cid \<notin> runningProcessors (run evs (init insts)) \<longrightarrow>
             loops (snd (control_handler now user cid resume (run evs (init insts))))
               = loops (run evs (init insts)) @ [(cid, Load)])"
    using resume_runs[of "run evs (init insts)" user cid c now] g by blast
  have 10: "find_owned_campaign (run evs (init insts)) user cid = Some c \<and> status c = CPENDING
        \<and> getStatus (sessions (run evs (init insts))) (c_instanceId c) = connected \<longrightarrow>
        fst (start_handler now user cid (run evs (init insts))) = Inr ()
        \<and> campaigns (snd (start_handler now user cid (run evs (init insts)))) cid
            = Some (c\<lparr>status := RUNNING, startedAt := Some now\<rparr>)
        \<and> cid \<in> runningProcessors (snd (start_handler now user cid (run evs (init insts))))
        \<and> cnt (is_active cid) (loops (snd (start_handler now user cid (run evs (init insts))))) = 1
        \<and> (cid \<notin> runningProcessors (run evs (init insts)) \<longrightarrow>
             loops (snd (start_handler now user cid (run evs (init insts))))
               = loops (run evs (init insts)) @ [(cid, Load)])"
    using start_runs[of "run evs (init insts)" user cid c now] g by blast
  from 1 2 3 4 5 6 7 8 9 10 show ?thesis by (intro conjI)
qed

subsection \<open>A pause and a cancel racing\<close>

text \<open>
  A campaign is started; then a pause and a cancel arrive together. Both read RUNNING
  and both pass the check. The cancel writes CANCELLED and is answered; the pause then
  writes PAUSED over it and is answered too.
\<close>

definition started_events :: "event list" where
  "started_events =
     [CacheSession ''i1'',
      CreateCampaign ''u1'' ''i1'' 1000 [(''5511'', demo_content), (''5522'', demo_content)] 7,
      StartRequest ''u1'' 0, ReqStep 0 8, ReqStep 0 8, ReqStep 0 8, ReqStep 0 8]"

definition cancelled_events :: "event list" where
  "cancelled_events =
     started_events @
     [ControlRequest ''u1'' 0 pause, ControlRequest ''u1'' 0 cancel,
      ReqStep 1 9, ReqStep 2 9, ReqStep 2 9]"

text \<open>
  The campaign, cancelled and paused after that, is resumed, and its run sends the first
  message.
\<close>

definition resumed_events :: "event list" where
  "resumed_events =
     cancelled_events @
     [ReqStep 1 9,
      ControlRequest ''u1'' 0 resume, ReqStep 3 10, ReqStep 3 10, ReqStep 3 10]
     @ replicate 4 (LoopStep 0 11 accepted 0)"

theorem control_race_counterexample:
  "map_option status (campaigns (run started_events demo_init) 0) = Some RUNNING
   \<and> map r_pc (requests (run cancelled_events demo_init))
       = [Replied (Inr ()), CtlWrite pause PAUSED, Replied (Inr ())]
   \<and> map_option status (campaigns (run cancelled_events demo_init) 0) = Some CANCELLED
   \<and> sent_log (run cancelled_events demo_init) = []
   \<and> map r_pc (requests (apply_event (ReqStep 1 9) (run cancelled_events demo_init)))
       = [Replied (Inr ()), Replied (Inr ()), Replied (Inr ())]
   \<and> map_option status
        (campaigns (apply_event (ReqStep 1 9) (run cancelled_events demo_init)) 0) = Some PAUSED
   \<and> map r_pc (requests (run resumed_events demo_init))
       = [Replied (Inr ()), Replied (Inr ()), Replied (Inr ()), Replied (Inr ())]
   \<and> map_option status (campaigns (run resumed_events demo_init) 0) = Some RUNNING
   \<and> sent_log (run resumed_events demo_init) = [1]"
  by code_simp

subsection \<open>The control endpoints on a paused campaign\<close>

text \<open>
  A campaign is started and paused, and its run reads PAUSED and ends: the campaign is
  PAUSED with no active run.
\<close>

definition paused_events :: "event list" where
  "paused_events =
     started_events @
     [ControlRequest ''u1'' 0 pause, ReqStep 1 9, ReqStep 1 9]
     @ replicate 4 (LoopStep 0 10 accepted 0)"

definition paused_campaign :: campaign where
  "paused_campaign = \<lparr> c_instanceId = ''i1'', status = PAUSED, delay = 1000, totalMessages = 2,
     sentMessages = 0, failedMessages = 0, startedAt = Some 8, completedAt = None \<rparr>"

lemma paused_world:
  "find_owned_campaign (run paused_events demo_init) ''u1'' 0 = Some paused_campaign"
  "runningProcessors (run paused_events demo_init) = {}"
  "loops (run paused_events demo_init) = [(0, Done None)]"
  "status paused_campaign = PAUSED"
  by code_simp+

lemma created_pending:
  "find_owned_campaign (run (take 2 started_events) demo_init) ''u1'' 0
     = Some (paused_campaign\<lparr>status := CPENDING, startedAt := None\<rparr>)"
  "runningProcessors (run (take 2 started_events) demo_init) = {}"
  "loops (run (take 2 started_events) demo_init) = []"
  "getStatus (sessions (run (take 2 started_events) demo_init)) ''i1'' = connected"
  by code_simp+

theorem control_actions_validated_witness:
  "find_owned_campaign (run paused_events demo_init) ''u1'' 0 = Some paused_campaign
   \<and> status paused_campaign = PAUSED
   \<and> runningProcessors (run paused_events demo_init) = {}
   \<and> req_step 12 ''u1'' 0 (CtlRead resume) (run paused_events demo_init)
       = (CtlWrite resume RUNNING, run paused_events demo_init)
   \<and> fst (control_handler 12 ''u1'' 0 resume (run paused_events demo_init)) = Inr ()
   \<and> campaigns (snd (control_handler 12 ''u1'' 0 resume (run paused_events demo_init))) 0
       = Some (paused_campaign\<lparr>status := RUNNING\<rparr>)
   \<and> loops (snd (control_handler 12 ''u1'' 0 resume (run paused_events demo_init)))
       = [(0, Done None), (0, Load)]
   \<and> cnt (is_active 0)
        (loops (snd (control_handler 12 ''u1'' 0 resume (run paused_events demo_init)))) = 1
   \<and> control_handler 12 ''u1'' 0 cancel (run paused_events demo_init)
       = (Inr (), write_campaign 0 (paused_campaign\<lparr>status := CANCELLED\<rparr>)
                    (run paused_events demo_init))
   \<and> (\<exists>e. control_handler 12 ''u1'' 0 pause (run paused_events demo_init)
             = (Inl e, run paused_events demo_init) \<and> is_client_error e)
   \<and> (\<exists>e. start_handler 12 ''u1'' 0 (run paused_events demo_init)
             = (Inl e, run paused_events demo_init) \<and> is_client_error e)
   \<and> fst (start_handler 8 ''u1'' 0 (run (take 2 started_events) demo_init)) = Inr ()
   \<and> loops (snd (start_handler 8 ''u1'' 0 (run (take 2 started_events) demo_init)))
       = [(0, Load)]
   \<and> campaigns (snd (start_handler 8 ''u1'' 0 (run (take 2 started_events) demo_init))) 0
       = Some (paused_campaign\<lparr>status := RUNNING\<rparr>)"
proof -
  let ?W = "run paused_events demo_init"
  let ?V = "run (take 2 started_events) demo_init"
  note r = control_actions_validated
             [where w = ?W and user = "''u1''" and cid = 0 and c = paused_campaign and a = resume
                and now = 12 and evs = paused_events and insts = "[''i1'' \<mapsto> demo_instance]"]
  note k = control_actions_validated
             [where w = ?W and user = "''u1''" and cid = 0 and c = paused_campaign and a = cancel
                and now = 12]
  note p = control_actions_validated
             [where w = ?W and user = "''u1''" and cid = 0 and a = pause and now = 12]
  note s = control_actions_validated
             [where w = ?V and user = "''u1''" and cid = 0 and now = 8
                and c = "paused_campaign\<lparr>status := CPENDING, startedAt := None\<rparr>"
                and evs = "take 2 started_events" and insts = "[''i1'' \<mapsto> demo_instance]"]
  note c2 = conjunct2
  have W: "run paused_events (init [''i1'' \<mapsto> demo_instance]) = ?W"
          "run (take 2 started_events) (init [''i1'' \<mapsto> demo_instance]) = ?V"
    by (simp_all add: demo_init_def)
  have vr: "valid_from resume (status paused_campaign)" "valid_from cancel (status paused_campaign)"
    by (simp_all add: valid_from_def paused_world(4))
  have np: "\<not> (\<exists>c. find_owned_campaign ?W ''u1'' 0 = Some c \<and> valid_from pause (status c))"
    by (simp add: paused_world valid_from_def)
  have ns: "\<not> (\<exists>c. find_owned_campaign ?W ''u1'' 0 = Some c \<and> status c = CPENDING
                   \<and> getStatus (sessions ?W) (c_instanceId c) = connected)"
    by (simp add: paused_world)
  have 1: "req_step 12 ''u1'' 0 (CtlRead resume) ?W = (CtlWrite resume RUNNING, ?W)"
    using r[THEN conjunct1] paused_world(1) vr(1) by (simp add: target_def)
  have 2: "control_handler 12 ''u1'' 0 cancel ?W
             = (Inr (), write_campaign 0 (paused_campaign\<lparr>status := CANCELLED\<rparr>) ?W)"
    using k[THEN conjunct1] paused_world(1) vr(2) by (simp add: target_def)
  have 3: "\<exists>e. control_handler 12 ''u1'' 0 pause ?W = (Inl e, ?W) \<and> is_client_error e"
    using p[THEN c2, THEN conjunct1] np by blast
  have 4: "\<exists>e. start_handler 12 ''u1'' 0 ?W = (Inl e, ?W) \<and> is_client_error e"
    using p[THEN c2, THEN c2, THEN c2, THEN c2, THEN c2, THEN c2, THEN c2, THEN conjunct1] ns
    by blast
  have "find_owned_campaign (run paused_events (init [''i1'' \<mapsto> demo_instance])) ''u1'' 0
          = Some paused_campaign \<and> status paused_campaign = PAUSED"
    using paused_world(1,4) by (simp add: W)
  from r[THEN c2, THEN c2, THEN c2, THEN c2, THEN c2, THEN c2, THEN c2, THEN c2, THEN c2,
         THEN c2, THEN c2, THEN c2, THEN c2, THEN c2, THEN c2, THEN c2, THEN conjunct1,
         THEN mp, OF this]
  have 5: "fst (control_handler 12 ''u1'' 0 resume ?W) = Inr ()
        \<and> campaigns (snd (control_handler 12 ''u1'' 0 resume ?W)) 0
            = Some (paused_campaign\<lparr>status := RUNNING\<rparr>)
        \<and> cnt (is_active 0) (loops (snd (control_handler 12 ''u1'' 0 resume ?W))) = 1
        \<and> (0 \<notin> runningProcessors ?W \<longrightarrow>
             loops (snd (control_handler 12 ''u1'' 0 resume ?W)) = loops ?W @ [(0, Load)])"
    by (simp add: W)
  then have lp: "loops (snd (control_handler 12 ''u1'' 0 resume ?W)) = [(0, Done None), (0, Load)]"
    by (simp add: paused_world)
  have "find_owned_campaign (run (take 2 started_events) (init [''i1'' \<mapsto> demo_instance])) ''u1'' 0
          = Some (paused_campaign\<lparr>status := CPENDING, startedAt := None\<rparr>)
        \<and> status (paused_campaign\<lparr>status := CPENDING, startedAt := None\<rparr>) = CPENDING
        \<and> getStatus (sessions (run (take 2 started_events) (init [''i1'' \<mapsto> demo_instance])))
             (c_instanceId (paused_campaign\<lparr>status := CPENDING, startedAt := None\<rparr>)) = connected"
    using created_pending(1,4) by (simp add: W paused_campaign_def)
  from s[THEN c2, THEN c2, THEN c2, THEN c2, THEN c2, THEN c2, THEN c2, THEN c2, THEN c2,
         THEN c2, THEN c2, THEN c2, THEN c2, THEN c2, THEN c2, THEN c2, THEN c2,
         THEN mp, OF this]
  have 6: "fst (start_handler 8 ''u1'' 0 ?V) = Inr ()
        \<and> loops (snd (start_handler 8 ''u1'' 0 ?V)) = [(0, Load)]
        \<and> campaigns (snd (start_handler 8 ''u1'' 0 ?V)) 0
            = Some (paused_campaign\<lparr>status := RUNNING\<rparr>)"
    by (simp add: W created_pending paused_campaign_def)
  from paused_world 1 2 3 4 5 6 show ?thesis by (simp add: lp)
qed

end
